theory Spec2Isabelle
  imports Complex_Main "HOL-Library.Word" "HOL-Library.Multiset" "HOL-Library.List_Lexorder"
begin

unbundle bit_operations_syntax

section \<open>JavaScript strings\<close>

text \<open>
  A JavaScript string is a sequence of 16-bit code units and \<open>.length\<close> counts code
  units, so a string is a list of 16-bit words. \<open>lit\<close> writes an ASCII literal.
\<close>

type_synonym jschar = "16 word"
type_synonym jsstr = "jschar list"

definition lit :: "string \<Rightarrow> jsstr" where
  "lit s = map of_char s"

definition SP :: jschar where
  "SP = 0x20"

text \<open>
  The code units that \<open>String.prototype.trim\<close>, \<open>trimEnd\<close> and \<open>trimStart\<close> strip:
  ECMAScript's WhiteSpace and LineTerminator.
\<close>

definition isWhiteSpace :: "jschar \<Rightarrow> bool" where
  "isWhiteSpace c \<longleftrightarrow>
     c = 0x09 \<or> c = 0x0A \<or> c = 0x0B \<or> c = 0x0C \<or> c = 0x0D \<or> c = 0x20 \<or> c = 0xA0 \<or>
     c = 0x1680 \<or> (0x2000 \<le> c \<and> c \<le> 0x200A) \<or> c = 0x2028 \<or> c = 0x2029 \<or>
     c = 0x202F \<or> c = 0x205F \<or> c = 0x3000 \<or> c = 0xFEFF"

definition trimStart :: "jsstr \<Rightarrow> jsstr" where
  "trimStart s = dropWhile isWhiteSpace s"

definition trimEnd :: "jsstr \<Rightarrow> jsstr" where
  "trimEnd s = rev (dropWhile isWhiteSpace (rev s))"

definition trim :: "jsstr \<Rightarrow> jsstr" where
  "trim s = trimEnd (trimStart s)"

text \<open>\<open>s.split(sep)\<close> for a one-unit separator: always at least one piece.\<close>

fun split :: "jschar \<Rightarrow> jsstr \<Rightarrow> jsstr list" where
  "split sep [] = [[]]"
| "split sep (c # cs) =
     (if c = sep then [] # split sep cs
      else (case split sep cs of
              [] \<Rightarrow> [[c]]
            | w # ws \<Rightarrow> (c # w) # ws))"

text \<open>\<open>arr.join(sep)\<close>.\<close>

fun join :: "jsstr \<Rightarrow> jsstr list \<Rightarrow> jsstr" where
  "join sep [] = []"
| "join sep [x] = x"
| "join sep (x # y # ys) = x @ sep @ join sep (y # ys)"

section \<open>Word wrap\<close>

text \<open>
  \<open>wrapText\<close> of the printer utilities. The hard-split \<open>while\<close> loop is the only
  loop whose exit depends on the data, so it is a partial function: \<open>None\<close> is the loop
  that never exits. \<open>maxWidth\<close> is a JavaScript number that is an integer at every call
  site; \<open>substring(0, cutLen)\<close> is \<open>take\<close> and \<open>substring(cutLen)\<close> is \<open>drop\<close>
  (\<open>cutLen\<close> is at least 1).
\<close>

partial_function (option) hardSplit ::
  "int \<Rightarrow> jsstr \<Rightarrow> jsstr list \<Rightarrow> jsstr \<Rightarrow> jsstr \<Rightarrow> (jsstr list \<times> jsstr \<times> jsstr) option"
where
  "hardSplit maxWidth indent lines currentLine tempWord =
     (if int (length (currentLine @ tempWord)) > maxWidth then
        (let cutLen = max 1 (maxWidth - int (length currentLine))
         in hardSplit maxWidth indent
              (lines @ [currentLine @ take (nat cutLen) tempWord])
              indent
              (drop (nat cutLen) tempWord))
      else Some (lines, currentLine, tempWord))"

declare hardSplit.simps [code]

text \<open>One iteration of \<open>for (const word of words)\<close> on the state \<open>(lines, currentLine)\<close>.\<close>

definition wrapWord ::
  "int \<Rightarrow> jsstr \<Rightarrow> jsstr list \<times> jsstr \<Rightarrow> jsstr \<Rightarrow> (jsstr list \<times> jsstr) option"
where
  "wrapWord maxWidth indent st word =
     (case st of (lines, currentLine) \<Rightarrow>
        if int (length (currentLine @ word)) > maxWidth then
          (let lines1 = (if length currentLine > 0 then lines @ [trimEnd currentLine] else lines);
               prefix = (if length lines1 > 0 then indent else []);
               currentLine1 = prefix
           in if int (length (currentLine1 @ word)) > maxWidth then
                (case hardSplit maxWidth indent lines1 currentLine1 word of
                   None \<Rightarrow> None
                 | Some (lines2, currentLine2, tempWord) \<Rightarrow>
                     Some (lines2, currentLine2 @ tempWord @ [SP]))
              else Some (lines1, currentLine1 @ word @ [SP]))
        else Some (lines, currentLine @ word @ [SP]))"

fun wrapWords ::
  "int \<Rightarrow> jsstr \<Rightarrow> jsstr list \<times> jsstr \<Rightarrow> jsstr list \<Rightarrow> (jsstr list \<times> jsstr) option"
where
  "wrapWords maxWidth indent st [] = Some st"
| "wrapWords maxWidth indent st (word # words) =
     (case wrapWord maxWidth indent st word of
        None \<Rightarrow> None
      | Some st' \<Rightarrow> wrapWords maxWidth indent st' words)"

definition wrapText :: "jsstr \<Rightarrow> int \<Rightarrow> jsstr \<Rightarrow> jsstr list option" where
  "wrapText text maxWidth indent =
     (case wrapWords maxWidth indent ([], []) (split SP text) of
        None \<Rightarrow> None
      | Some (lines, currentLine) \<Rightarrow>
          Some (if length (trim currentLine) > 0 then lines @ [trimEnd currentLine] else lines))"

text \<open>
  \<open>stripIndents\<close> removes what \<open>wrapText\<close> inserted: the indent in front of every line
  but the first. \<open>nonWs\<close> keeps the code units that are not white space.
\<close>

definition stripIndents :: "jsstr \<Rightarrow> jsstr list \<Rightarrow> jsstr list" where
  "stripIndents indent ls =
     (case ls of [] \<Rightarrow> [] | l # rest \<Rightarrow> l # map (drop (length indent)) rest)"

definition nonWs :: "jsstr \<Rightarrow> jsstr" where
  "nonWs s = filter (\<lambda>c. \<not> isWhiteSpace c) s"

section \<open>Values of the host language\<close>

text \<open>
  Integers print in decimal (\<open>String(n)\<close> and template literals, for
  \<open>|n| < 10^21\<close>; beyond that JavaScript switches to exponent notation).
\<close>

definition digit :: "nat \<Rightarrow> jschar" where
  "digit d = of_nat (48 + d)"

function showNat :: "nat \<Rightarrow> jsstr" where
  "showNat n = (if n < 10 then [digit n] else showNat (n div 10) @ [digit (n mod 10)])"
  by pat_completeness auto
termination
  by (relation "measure id") auto

definition showInt :: "int \<Rightarrow> jsstr" where
  "showInt i = (if i < 0 then lit ''-'' @ showNat (nat (- i)) else showNat (nat i))"

text \<open>
  Amounts of money are JavaScript numbers; the model takes them finite and exact
  (rationals). A field that may hold a number, a string or nothing is a \<open>jsval\<close>.
\<close>

datatype jsval = Undefined | Null | NumV rat | StrV jsstr

datatype idlike = IdStr jsstr | IdNum int

record jsdate =
  getDate :: nat
  getMonth :: nat
  getFullYear :: int
  getHours :: nat
  getMinutes :: nat

text \<open>
  Library functions of the host, taken as parameters: \<open>n.toFixed(2)\<close>, \<open>Number(s)\<close>
  (\<open>None\<close> when the result is not finite), \<open>new Date(s)\<close> read in local time
  (\<open>None\<close> for an invalid date) and \<open>s.toUpperCase()\<close>.
\<close>

record host =
  toFixed2 :: "rat \<Rightarrow> jsstr"
  parseNumber :: "jsstr \<Rightarrow> rat option"
  newDate :: "jsstr \<Rightarrow> jsdate option"
  toUpperCase :: "jsstr \<Rightarrow> jsstr"

text \<open>\<open>s.replace(a, b)\<close> with one-unit strings: the first occurrence only.\<close>

fun replaceFirst :: "jschar \<Rightarrow> jschar \<Rightarrow> jsstr \<Rightarrow> jsstr" where
  "replaceFirst a b [] = []"
| "replaceFirst a b (c # cs) = (if c = a then b # cs else c # replaceFirst a b cs)"

definition trimStr :: "jsstr option \<Rightarrow> jsstr" where
  "trimStr v = (case v of None \<Rightarrow> [] | Some s \<Rightarrow> trim s)"

definition toNumber :: "host \<Rightarrow> jsval \<Rightarrow> rat" where
  "toNumber h v =
     (case v of
        Undefined \<Rightarrow> 0
      | Null \<Rightarrow> 0
      | NumV n \<Rightarrow> n
      | StrV str \<Rightarrow>
          (let s = replaceFirst 0x2C 0x2E (trim str)
           in case parseNumber h s of Some n \<Rightarrow> n | None \<Rightarrow> 0))"

section \<open>Receipt lines and orders\<close>

record KitchenReceiptLine =
  foodName :: jsstr
  quantity :: "int option"
  notes' :: "jsstr option"

record CashReceiptLine = KitchenReceiptLine +
  unitPrice :: "rat option"
  surcharge :: "rat option"

record IncomingOrder =
  order_id :: idlike
  displayCode :: "jsstr option"
  table :: "jsstr option"
  customer :: "jsstr option"
  confirmedAt :: "jsstr option"
  ticketNumber :: "int option"
  paymentMethod :: "jsstr option"
  discount :: jsval

section \<open>Layout helpers shared by the receipts\<close>

definition RECEIPT_W :: int where
  "RECEIPT_W = 48"

definition NL :: jschar where
  "NL = 0x0A"

definition GS :: jsstr where "GS = [0x1D]"
definition ESC :: jsstr where "ESC = [0x1B]"
definition TXT_NORMAL :: jsstr where "TXT_NORMAL = GS @ lit ''!'' @ [0x00]"
definition TXT_BIG :: jsstr where "TXT_BIG = GS @ lit ''!'' @ [0x11]"
definition BOLD_ON :: jsstr where "BOLD_ON = ESC @ lit ''E'' @ [0x01]"
definition BOLD_OFF :: jsstr where "BOLD_OFF = ESC @ lit ''E'' @ [0x00]"

definition repeat :: "jsstr \<Rightarrow> int \<Rightarrow> jsstr" where
  "repeat ch n = concat (replicate (nat (max 0 n)) ch)"

definition line :: "jsstr \<Rightarrow> jsstr" where
  "line ch = repeat ch RECEIPT_W"

text \<open>\<open>s.slice(0, w)\<close>: a negative \<open>w\<close> counts from the end.\<close>

definition slice0 :: "jsstr \<Rightarrow> int \<Rightarrow> jsstr" where
  "slice0 s w = (if w < 0 then take (nat (int (length s) + w)) s else take (nat w) s)"

definition cut :: "jsstr \<Rightarrow> int \<Rightarrow> jsstr" where
  "cut s w = (if int (length s) \<le> w then s else slice0 s w)"

definition padRight :: "jsstr \<Rightarrow> int \<Rightarrow> jsstr" where
  "padRight s w = (if int (length s) \<ge> w then s else s @ repeat [SP] (w - int (length s)))"

definition padStart2 :: "jsstr \<Rightarrow> jsstr" where
  "padStart2 s = (if length s \<ge> 2 then s else replicate (2 - length s) 0x30 @ s)"

definition lr :: "jsstr \<Rightarrow> jsstr \<Rightarrow> jsstr" where
  "lr left0 right0 =
     (let left = trimEnd left0;
          right = trim right0;
          space = 1;
          leftW = RECEIPT_W - int (length right) - space;
          leftCut = cut left (max 0 leftW)
      in padRight leftCut (max 0 leftW) @ repeat [SP] space @ right)"

definition EURO :: jschar where
  "EURO = 0x20AC"

text \<open>
  \<open>eurCol\<close>: the amount with two decimals, a comma and the euro sign. Every amount
  of the model is finite, so \<open>Number.isFinite(n) ? n : 0\<close> is \<open>n\<close>.
\<close>

definition eurCol :: "host \<Rightarrow> rat \<Rightarrow> jsstr" where
  "eurCol h n = (let v = n; s = replaceFirst 0x2E 0x2C (toFixed2 h v) in s @ [EURO])"

text \<open>\<open>s || d\<close> on strings: the empty string is falsy.\<close>

definition orElse :: "jsstr \<Rightarrow> jsstr \<Rightarrow> jsstr" where
  "orElse s d = (if s = [] then d else s)"

text \<open>The \<open>ORA:\<close> line of both receipts, pushed when \<open>confirmedAt\<close> is not blank.\<close>

definition oraLines :: "host \<Rightarrow> IncomingOrder \<Rightarrow> jsstr list" where
  "oraLines h order =
     (if trimStr (confirmedAt order) \<noteq> [] then
        (case newDate h (case confirmedAt order of None \<Rightarrow> [] | Some s \<Rightarrow> s) of
           Some d \<Rightarrow>
             (let day = padStart2 (showNat (getDate d));
                  month = padStart2 (showNat (getMonth d + 1));
                  year = showInt (getFullYear d);
                  hrs = padStart2 (showNat (getHours d));
                  mins = padStart2 (showNat (getMinutes d))
              in [cut (lit ''ORA: '' @ day @ lit ''/'' @ month @ lit ''/'' @ year @ lit '' '' @
                       hrs @ lit '':'' @ mins) RECEIPT_W])
         | None \<Rightarrow> [cut (lit ''ORA: '' @ trimStr (confirmedAt order)) RECEIPT_W])
      else [])"

text \<open>
  The wrapped note of an item, in both receipts:
  \<open>if (l.notes && trimStr(l.notes)) { ... wrapText(indent + "NOTE: " + ..., RECEIPT_W, noteIndent) }\<close>.
\<close>

definition noteLines :: "jsstr \<Rightarrow> jsstr option \<Rightarrow> jsstr list option" where
  "noteLines indent n =
     (if trimStr n \<noteq> [] then
        (let noteIndent = indent @ lit ''      ''
         in wrapText (indent @ lit ''NOTE: '' @ trimStr n) RECEIPT_W noteIndent)
      else Some [])"

section \<open>Print segments\<close>

type_synonym byte = "8 word"

datatype segment = Text jsstr | Raw "byte list"

text \<open>\<open>Buffer.from(s, "ascii")\<close> keeps the low eight bits of every code unit.\<close>

definition asciiBytes :: "jsstr \<Rightarrow> byte list" where
  "asciiBytes s = map ucast s"

definition FEED_AND_CUT :: "byte list" where
  "FEED_AND_CUT = asciiBytes (ESC @ lit ''d'' @ [0x06] @ ESC @ lit ''i'')"

definition SELECT_CP858 :: "byte list" where
  "SELECT_CP858 = asciiBytes (ESC @ lit ''t'' @ [0x13])"

section \<open>Image rasterizer\<close>

record ImageOptions =
  paperWidth :: "nat option"
  exactWidth :: "nat option"
  exactHeight :: "nat option"
  inlineText :: "jsstr option"

text \<open>
  Loading, cropping, resizing, the inline text, the compositing on the white canvas and
  the greyscale, contrast and posterize filters are calls into the image library. The
  library is a parameter: for a file, the options and the canvas width it answers with the
  canvas, its height \<open>itemHeight\<close> and the red and alpha channels of each pixel, or with
  \<open>None\<close> when any of those calls throws.
\<close>

record canvas =
  itemHeight :: nat
  pixelRA :: "nat \<Rightarrow> nat \<Rightarrow> nat \<times> nat"

type_synonym jimp = "jsstr \<Rightarrow> ImageOptions \<Rightarrow> nat \<Rightarrow> canvas option"

text \<open>\<open>options.paperWidth || 384\<close>: absent and 0 are both falsy.\<close>

definition effectivePaperWidth :: "ImageOptions \<Rightarrow> nat" where
  "effectivePaperWidth options =
     (case paperWidth options of None \<Rightarrow> 384 | Some w \<Rightarrow> if w = 0 then 384 else w)"

definition widthBytesOf :: "nat \<Rightarrow> nat" where
  "widthBytesOf pw = nat \<lceil>(of_nat pw :: rat) / 8\<rceil>"

definition isBlack :: "nat \<times> nat \<Rightarrow> bool" where
  "isBlack ra = (case ra of (r, alpha) \<Rightarrow> alpha > 128 \<and> r < 128)"

text \<open>The body of the inner loop: one pixel. A write outside the buffer is ignored.\<close>

definition setPixel :: "canvas \<Rightarrow> nat \<Rightarrow> nat \<Rightarrow> byte list \<Rightarrow> nat \<Rightarrow> byte list" where
  "setPixel cv widthBytes y data' x =
     (if isBlack (pixelRA cv x y) then
        (let byteIndex = y * widthBytes + x div 8;
             bitIndex = 7 - x mod 8
         in data'[byteIndex := (data' ! byteIndex) OR push_bit bitIndex 1])
      else data')"

definition packRow :: "canvas \<Rightarrow> nat \<Rightarrow> nat \<Rightarrow> byte list \<Rightarrow> nat \<Rightarrow> byte list" where
  "packRow cv widthBytes paddedWidth data' y =
     foldl (setPixel cv widthBytes y) data' [0..<paddedWidth]"

definition packBitmap :: "canvas \<Rightarrow> nat \<Rightarrow> nat \<Rightarrow> byte list" where
  "packBitmap cv widthBytes paddedWidth =
     foldl (packRow cv widthBytes paddedWidth)
       (replicate (widthBytes * itemHeight cv) 0) [0..<itemHeight cv]"

definition rasterHeader :: "nat \<Rightarrow> nat \<Rightarrow> byte list" where
  "rasterHeader widthBytes h =
     (let xL = widthBytes mod 256;
          xH = widthBytes div 256;
          yL = h mod 256;
          yH = h div 256
      in [0x1d, 0x76, 0x30, 0x00, of_nat xL, of_nat xH, of_nat yL, of_nat yH])"

definition loadImageAsEscPos :: "jimp \<Rightarrow> jsstr \<Rightarrow> ImageOptions \<Rightarrow> byte list" where
  "loadImageAsEscPos lib filePath options =
     (let paperWidth = effectivePaperWidth options;
          widthBytes = widthBytesOf paperWidth;
          paddedWidth = widthBytes * 8
      in case lib filePath options paddedWidth of
           None \<Rightarrow> []
         | Some cv \<Rightarrow>
             rasterHeader widthBytes (itemHeight cv) @ packBitmap cv widthBytes paddedWidth)"

section \<open>Kitchen receipt\<close>

text \<open>\<open>l.quantity ?? 1\<close>, and the indent \<open>" ".repeat(namePrefix.length)\<close>.\<close>

definition qtyOf :: "'a KitchenReceiptLine_scheme \<Rightarrow> int" where
  "qtyOf l = (case quantity l of None \<Rightarrow> 1 | Some q \<Rightarrow> q)"

definition itemIndent :: "jsstr \<Rightarrow> jsstr" where
  "itemIndent namePrefix = replicate (length namePrefix) SP"

definition kitchenItem :: "'a KitchenReceiptLine_scheme \<Rightarrow> jsstr list option" where
  "kitchenItem l =
     (let qty = qtyOf l;
          name = orElse (trim (foodName l)) (lit ''FOOD'');
          namePrefix = showInt qty @ lit ''x '';
          indent = itemIndent namePrefix
      in case wrapText (namePrefix @ name) RECEIPT_W indent of
           None \<Rightarrow> None
         | Some wrappedName \<Rightarrow>
             (case noteLines indent (notes' l) of
                None \<Rightarrow> None
              | Some wrappedNotes \<Rightarrow> Some (wrappedName @ wrappedNotes @ [[]])))"

fun kitchenItems :: "jsstr list \<Rightarrow> 'a KitchenReceiptLine_scheme list \<Rightarrow> jsstr list option" where
  "kitchenItems out [] = Some out"
| "kitchenItems out (l # ls) =
     (case kitchenItem l of
        None \<Rightarrow> None
      | Some rows \<Rightarrow> kitchenItems (out @ rows) ls)"

definition kitchenHeader :: "host \<Rightarrow> IncomingOrder \<Rightarrow> int \<Rightarrow> jsstr list" where
  "kitchenHeader h order progress =
     (let topInfo0 = lit ''PROGR: '' @ showInt progress;
          topInfo = (if trimStr (displayCode order) \<noteq> []
                     then lit ''COD: '' @ trimStr (displayCode order) @ lit '' - '' @ topInfo0
                     else topInfo0);
          table' = orElse (trimStr (table order)) (lit ''-'');
          customer' = orElse (trimStr (customer order)) (lit ''-'')
      in [cut topInfo RECEIPT_W,
          cut (lit ''===== ORDINE CUCINA ====='') RECEIPT_W,
          line (lit ''=''),
          TXT_BIG @ cut (lit ''TAVOLO: '' @ table') RECEIPT_W @ TXT_NORMAL,
          TXT_BIG @ cut (lit ''CLIENTE: '' @ customer') RECEIPT_W @ TXT_NORMAL,
          TXT_BIG @ cut (lit ''PROGR: '' @ showInt progress) RECEIPT_W @ TXT_NORMAL,
          line (lit ''-'')]
         @ (if trimStr (displayCode order) \<noteq> []
            then [cut (lit ''CODICE: '' @ trimStr (displayCode order)) RECEIPT_W] else [])
         @ oraLines h order
         @ [line (lit ''-'')])"

text \<open>The array \<open>out\<close> of \<open>buildKitchenReceipt\<close>, and the receipt \<open>out.join("\n")\<close>.\<close>

definition kitchenOut ::
  "host \<Rightarrow> IncomingOrder \<Rightarrow> 'a KitchenReceiptLine_scheme list \<Rightarrow> int \<Rightarrow> jsstr list option"
where
  "kitchenOut h order lines progress =
     (case kitchenItems (kitchenHeader h order progress) lines of
        None \<Rightarrow> None
      | Some out \<Rightarrow> Some (out @ [line (lit ''-'')]))"

definition buildKitchenReceipt ::
  "host \<Rightarrow> IncomingOrder \<Rightarrow> 'a KitchenReceiptLine_scheme list \<Rightarrow> int \<Rightarrow> jsstr option"
where
  "buildKitchenReceipt h order lines progress =
     (case kitchenOut h order lines progress of
        None \<Rightarrow> None
      | Some out \<Rightarrow> Some (join [NL] out))"

section \<open>Progress counters of the print route\<close>

text \<open>
  \<open>progressCounters\<close> is a module-level object from printer id to number. The loop over
  the kitchen printers of an order reads the counter (\<open>?? 1\<close>), builds the receipt and
  stores the counter plus one. What the loop then does with the receipt (printing it or
  logging it) does not touch the counters and is left out here. The object is read as a
  map: a printer id that names a member of \<open>Object.prototype\<close> (\<open>constructor\<close>,
  \<open>toString\<close>, ...) would find that member instead of nothing, and such ids are left
  out of the model.
\<close>

type_synonym counters = "jsstr \<rightharpoonup> int"

definition kitchenStep ::
  "host \<Rightarrow> IncomingOrder \<Rightarrow> counters \<Rightarrow> jsstr \<times> 'a KitchenReceiptLine_scheme list \<Rightarrow>
   (jsstr \<times> counters) option"
where
  "kitchenStep h order progressCounters entry =
     (case entry of (printerId, lines) \<Rightarrow>
        (let prog = (case progressCounters printerId of None \<Rightarrow> 1 | Some n \<Rightarrow> n)
         in case buildKitchenReceipt h order lines prog of
              None \<Rightarrow> None
            | Some receipt \<Rightarrow> Some (receipt, progressCounters(printerId \<mapsto> prog + 1))))"

fun kitchenLoop ::
  "host \<Rightarrow> IncomingOrder \<Rightarrow> counters \<Rightarrow> (jsstr \<times> 'a KitchenReceiptLine_scheme list) list \<Rightarrow>
   (jsstr list \<times> counters) option"
where
  "kitchenLoop h order progressCounters [] = Some ([], progressCounters)"
| "kitchenLoop h order progressCounters (entry # entries) =
     (case kitchenStep h order progressCounters entry of
        None \<Rightarrow> None
      | Some (receipt, progressCounters') \<Rightarrow>
          (case kitchenLoop h order progressCounters' entries of
             None \<Rightarrow> None
           | Some (receipts, final) \<Rightarrow> Some (receipt # receipts, final)))"

section \<open>Cash receipt\<close>

definition cashHeader :: "host \<Rightarrow> IncomingOrder \<Rightarrow> jsstr list" where
  "cashHeader h order =
     (let orderNum = (case ticketNumber order of
                        Some n \<Rightarrow> showInt n
                      | None \<Rightarrow> (case order_id order of IdStr s \<Rightarrow> s | IdNum n \<Rightarrow> showInt n))
      in [TXT_BIG @ BOLD_ON @ lit ''Numero Ordine: '' @ orderNum @ BOLD_OFF @ TXT_NORMAL]
         @ (if trimStr (displayCode order) \<noteq> []
            then [cut (lit ''CODICE: '' @ trimStr (displayCode order)) RECEIPT_W] else [])
         @ [cut (lit ''TAVOLO: '' @ orElse (trimStr (table order)) (lit ''-'')) RECEIPT_W,
            cut (lit ''CLIENTE: '' @ orElse (trimStr (customer order)) (lit ''-'')) RECEIPT_W]
         @ (if trimStr (paymentMethod order) \<noteq> [] then
              (let pmStr0 = toUpperCase h (trimStr (paymentMethod order));
                   pmStr = (if pmStr0 = lit ''CASH'' then lit ''CONTANTI''
                            else if pmStr0 = lit ''CARD'' then lit ''PAGAMENTO ELETTRONICO''
                            else pmStr0)
               in [cut (lit ''PAGAMENTO: '' @ pmStr) RECEIPT_W])
            else [])
         @ oraLines h order
         @ [line (lit ''-'')])"

text \<open>
  One iteration of the loop over the priced lines: the rows it pushes on \<open>out\<close>, and
  \<open>rowBase\<close> and \<open>rowExtra\<close>, which the loop adds to \<open>subtotalCalc\<close> and \<open>surchargeSum\<close>.
\<close>

definition unitBaseOf :: "host \<Rightarrow> 'a CashReceiptLine_scheme \<Rightarrow> rat" where
  "unitBaseOf h l = toNumber h (case unitPrice l of None \<Rightarrow> NumV 0 | Some p \<Rightarrow> NumV p)"

definition unitExtraOf :: "host \<Rightarrow> 'a CashReceiptLine_scheme \<Rightarrow> rat" where
  "unitExtraOf h l = toNumber h (case surcharge l of None \<Rightarrow> NumV 0 | Some p \<Rightarrow> NumV p)"

definition cashItem ::
  "host \<Rightarrow> 'a CashReceiptLine_scheme \<Rightarrow> (jsstr list \<times> rat \<times> rat) option"
where
  "cashItem h l =
     (let qty = qtyOf l;
          name = orElse (trim (foodName l)) (lit ''FOOD NAME NOT FOUND'');
          unitBase = unitBaseOf h l;
          unitExtra = unitExtraOf h l;
          rowBase = unitBase * of_int qty;
          rowExtra = unitExtra * of_int qty;
          rowTotal = rowBase + rowExtra;
          priceStr = eurCol h rowTotal;
          availableWidthForName = RECEIPT_W - int (length priceStr) - 1;
          namePrefix = showInt qty @ lit ''x '';
          indent = itemIndent namePrefix
      in case wrapText (namePrefix @ name) availableWidthForName indent of
           None \<Rightarrow> None
         | Some wrappedNameLines \<Rightarrow>
             (case noteLines indent (notes' l) of
                None \<Rightarrow> None
              | Some wrappedNotes \<Rightarrow>
                  Some ([lr (case wrappedNameLines of [] \<Rightarrow> [] | l0 # _ \<Rightarrow> l0) priceStr]
                        @ map (\<lambda>wl. cut wl RECEIPT_W) (drop 1 wrappedNameLines)
                        @ wrappedNotes
                        @ (if rowExtra > 0 then [lr (indent @ lit ''EXTRA'') (eurCol h rowExtra)]
                           else [])
                        @ [[]],
                        rowBase, rowExtra)))"

fun cashItems ::
  "host \<Rightarrow> jsstr list \<times> rat \<times> rat \<Rightarrow> 'a CashReceiptLine_scheme list \<Rightarrow>
   (jsstr list \<times> rat \<times> rat) option"
where
  "cashItems h acc [] = Some acc"
| "cashItems h acc (l # ls) =
     (case acc of (out, subtotalCalc, surchargeSum) \<Rightarrow>
        (case cashItem h l of
           None \<Rightarrow> None
         | Some (rows, rowBase, rowExtra) \<Rightarrow>
             cashItems h (out @ rows, subtotalCalc + rowBase, surchargeSum + rowExtra) ls))"

definition totalAfterDiscount :: "host \<Rightarrow> IncomingOrder \<Rightarrow> rat \<Rightarrow> rat \<Rightarrow> rat" where
  "totalAfterDiscount h order subtotalCalc surchargeSum =
     (let discount' = toNumber h (discount order);
          totalBase = subtotalCalc + surchargeSum
      in max 0 (totalBase - discount'))"

definition cashTotals :: "host \<Rightarrow> IncomingOrder \<Rightarrow> rat \<Rightarrow> rat \<Rightarrow> jsstr list" where
  "cashTotals h order subtotalCalc surchargeSum =
     (let discount' = toNumber h (discount order)
      in [lr (lit ''SUBTOTALE'') (eurCol h subtotalCalc)]
         @ (if surchargeSum > 0 then [lr (lit ''EXTRA TOTALI'') (eurCol h surchargeSum)] else [])
         @ (if discount' > 0 then [lr (lit ''SCONTO'') (lit ''-'' @ eurCol h discount')] else [])
         @ [line (lit ''=''),
            lr (lit ''TOTALE'') (eurCol h (totalAfterDiscount h order subtotalCalc surchargeSum)),
            line (lit ''='')])"

text \<open>The array \<open>out\<close> of \<open>buildCashReceipt\<close> when the totals have been pushed.\<close>

definition cashOut ::
  "host \<Rightarrow> IncomingOrder \<Rightarrow> 'a CashReceiptLine_scheme list \<Rightarrow> jsstr list option"
where
  "cashOut h order lines =
     (case cashItems h (cashHeader h order, 0, 0) lines of
        None \<Rightarrow> None
      | Some (out, subtotalCalc, surchargeSum) \<Rightarrow>
          Some (out @ [line (lit ''-'')] @ cashTotals h order subtotalCalc surchargeSum))"

text \<open>
  The files of the asset directories: \<open>fs.existsSync\<close> is a parameter, and a path is the
  directory and the file name joined under the working directory.
\<close>

definition assetPath :: "string \<Rightarrow> string \<Rightarrow> jsstr" where
  "assetPath dir name = lit dir @ lit ''/'' @ lit name"

definition resolveAsset :: "(jsstr \<Rightarrow> bool) \<Rightarrow> string \<Rightarrow> jsstr" where
  "resolveAsset existsSync name =
     (if \<not> existsSync (assetPath ''assets'' name) then assetPath ''default-assets'' name
      else assetPath ''assets'' name)"

fun logoParts :: "(jsstr \<Rightarrow> bool) \<Rightarrow> jimp \<Rightarrow> string list \<Rightarrow> segment list" where
  "logoParts existsSync lib [] = []"
| "logoParts existsSync lib (lo # los) =
     (let logoPath = resolveAsset existsSync lo
      in if existsSync logoPath then
           (let logoBuf = loadImageAsEscPos lib logoPath
                            \<lparr>paperWidth = Some 576, exactWidth = Some 210,
                             exactHeight = None, inlineText = None\<rparr>
            in if length logoBuf > 0 then [Raw logoBuf] else [])
         else logoParts existsSync lib los)"

definition footerBuf :: "(jsstr \<Rightarrow> bool) \<Rightarrow> jimp \<Rightarrow> byte list option" where
  "footerBuf existsSync lib =
     (let mysagraPath = resolveAsset existsSync ''mysagralogo.png''
      in if existsSync mysagraPath then
           Some (loadImageAsEscPos lib mysagraPath
                   \<lparr>paperWidth = Some 576, exactWidth = None,
                    exactHeight = Some 24, inlineText = Some (lit ''mysagra.com'')\<rparr>)
         else None)"

definition footerParts :: "byte list option \<Rightarrow> segment list" where
  "footerParts mysagraFooterBuf =
     (case mysagraFooterBuf of
        None \<Rightarrow> []
      | Some b \<Rightarrow> if length b > 0 then [Raw b] else [])"

definition ticketParts ::
  "host \<Rightarrow> IncomingOrder \<Rightarrow> byte list option \<Rightarrow> 'a KitchenReceiptLine_scheme \<Rightarrow> segment list"
where
  "ticketParts h order mysagraFooterBuf ticket =
     (let qty = qtyOf ticket;
          name = toUpperCase h (trim (foodName ticket));
          ticketStr0 = [NL, NL] @ TXT_BIG @ showInt qty @ lit ''x '' @ name @ TXT_NORMAL @ [NL];
          subTitle0 = (if trimStr (displayCode order) \<noteq> []
                       then lit ''CODICE: '' @ trimStr (displayCode order) else []);
          subTitle = (if trimStr (customer order) \<noteq> []
                      then (if subTitle0 \<noteq> [] then subTitle0 @ lit '' - '' else subTitle0)
                           @ lit ''CLIENTE: '' @ trimStr (customer order)
                      else subTitle0);
          ticketStr1 = (if subTitle \<noteq> [] then ticketStr0 @ cut subTitle RECEIPT_W @ [NL]
                        else ticketStr0);
          ticketStr = ticketStr1 @ [NL]
      in [Raw FEED_AND_CUT, Text ticketStr] @ footerParts mysagraFooterBuf)"

definition buildCashReceipt ::
  "host \<Rightarrow> (jsstr \<Rightarrow> bool) \<Rightarrow> jimp \<Rightarrow> IncomingOrder \<Rightarrow> 'a CashReceiptLine_scheme list \<Rightarrow>
   'b KitchenReceiptLine_scheme list option \<Rightarrow> segment list option"
where
  "buildCashReceipt h existsSync lib order lines singleTickets =
     (case cashOut h order lines of
        None \<Rightarrow> None
      | Some out \<Rightarrow>
          (let mysagraFooterBuf = footerBuf existsSync lib
           in Some (logoParts existsSync lib [''logo.png'', ''logo.jpg'', ''logo.jpeg'']
                    @ [Text ([NL, NL, NL] @ join [NL] out @ [NL, NL])]
                    @ footerParts mysagraFooterBuf
                    @ [Text (trimEnd (repeat [NL] 12))]
                    @ (case singleTickets of
                         None \<Rightarrow> []
                       | Some tickets \<Rightarrow>
                           concat (map (ticketParts h order mysagraFooterBuf) tickets)))))"

section \<open>Printer transport\<close>

text \<open>
  A port is a JavaScript number. \<open>Number.isFinite\<close> and \<open>portClean <= 0\<close> tell the
  finite values from \<open>NaN\<close> and the infinities, so the model keeps them apart.
\<close>

datatype number = Finite rat | NaN | PosInfinity | NegInfinity

fun isFinite :: "number \<Rightarrow> bool" where
  "isFinite (Finite _) = True"
| "isFinite _ = False"

text \<open>\<open>n <= 0\<close>: every comparison with \<open>NaN\<close> is false.\<close>

fun lessEqZero :: "number \<Rightarrow> bool" where
  "lessEqZero (Finite q) = (q \<le> 0)"
| "lessEqZero NaN = False"
| "lessEqZero PosInfinity = False"
| "lessEqZero NegInfinity = True"

datatype error = InvalidAddress | Timeout | TransportError

datatype PrinterStatus = OK | CARTA_QUASI_FINITA | CARTA_FINITA

text \<open>
  The network is the environment. Its state \<open>'w\<close> is threaded through every socket
  operation, so that two operations on the same address may answer differently and an
  operation that is not performed leaves the state as it was.
  \<^item> \<open>netWrite\<close>: connect, write the payload, end; \<open>True\<close> when the write completed,
    \<open>False\<close> on an \<open>error\<close> event.
  \<^item> \<open>netQuery\<close>: connect, write the query and wait three seconds for the first chunk.
\<close>

datatype query_result = QData "byte list" | QTimeout | QError

record 'w net =
  netWrite :: "'w \<Rightarrow> jsstr \<Rightarrow> number \<Rightarrow> byte list \<Rightarrow> bool \<times> 'w"
  netQuery :: "'w \<Rightarrow> jsstr \<Rightarrow> number \<Rightarrow> byte list \<Rightarrow> query_result \<times> 'w"

datatype PrintData = Many "segment list" | One segment

text \<open>\<open>iconv.encode(item, "cp858")\<close> is the parameter \<open>cp858\<close>.\<close>

definition encodePayload :: "(jsstr \<Rightarrow> byte list) \<Rightarrow> PrintData \<Rightarrow> byte list" where
  "encodePayload cp858 data' =
     (let normalized = (case data' of Many items \<Rightarrow> items | One item \<Rightarrow> [item]);
          buffers0 = [SELECT_CP858];
          buffers1 = foldl (\<lambda>buffers item.
                              (case item of
                                 Raw b \<Rightarrow> buffers @ [b]
                               | Text s \<Rightarrow> buffers @ [cp858 s]))
                           buffers0 normalized;
          buffers2 = buffers1 @ [FEED_AND_CUT]
      in concat buffers2)"

definition invalidAddress :: "jsstr \<Rightarrow> number \<Rightarrow> bool" where
  "invalidAddress ip' port' =
     (let ipClean = trim ip'; portClean = port'
      in ipClean = [] \<or> \<not> isFinite portClean \<or> lessEqZero portClean)"

definition sendToPrinter ::
  "(jsstr \<Rightarrow> byte list) \<Rightarrow> 'w net \<Rightarrow> 'w \<Rightarrow> jsstr \<Rightarrow> number \<Rightarrow> PrintData \<Rightarrow> (error + unit) \<times> 'w"
where
  "sendToPrinter cp858 nw w ip' port' data' =
     (if invalidAddress ip' port' then (Inl InvalidAddress, w)
      else (let payload = encodePayload cp858 data'
            in case netWrite nw w (trim ip') port' payload of
                 (True, w') \<Rightarrow> (Inr (), w')
               | (False, w') \<Rightarrow> (Inl TransportError, w')))"

text \<open>
  The classification of the first byte of the answer. An empty chunk has no first byte:
  \<open>undefined & 0x60\<close> is 0.
\<close>

definition paperStatus :: "byte \<Rightarrow> PrinterStatus" where
  "paperStatus statusByte =
     (let paperEnded = (statusByte AND 0x60 = 0x60);
          paperLow = (statusByte AND 0x0C = 0x0C)
      in if paperEnded then CARTA_FINITA
         else if paperLow then CARTA_QUASI_FINITA
         else OK)"

definition getPrinterStatus ::
  "'w net \<Rightarrow> 'w \<Rightarrow> jsstr \<Rightarrow> number \<Rightarrow> (error + PrinterStatus) \<times> 'w"
where
  "getPrinterStatus nw w ip' port' =
     (case netQuery nw w ip' port' [0x10, 0x04, 0x04] of
        (QTimeout, w') \<Rightarrow> (Inl Timeout, w')
      | (QError, w') \<Rightarrow> (Inl TransportError, w')
      | (QData chunk, w') \<Rightarrow>
          (case chunk of
             [] \<Rightarrow> (Inr OK, w')
           | statusByte # _ \<Rightarrow> (Inr (paperStatus statusByte), w')))"

section \<open>Delivery queue\<close>

record PrintJob =
  job_id :: jsstr
  printerId :: jsstr
  ip :: jsstr
  port :: number
  data :: PrintData
  timestamp :: int
  attempts :: int

record PrintQueueManager =
  queue :: "PrintJob list"
  isProcessing :: bool

text \<open>
  \<open>add\<close>. \<open>Math.random().toString(36)\<close> and \<open>Date.now()\<close> come from the environment:
  \<open>rnd36\<close> is the base-36 text of the random number and \<open>now\<close> the clock.
\<close>

definition add ::
  "jsstr \<Rightarrow> int \<Rightarrow> PrintQueueManager \<Rightarrow> jsstr \<Rightarrow> jsstr \<Rightarrow> number \<Rightarrow> PrintData \<Rightarrow>
   PrintQueueManager"
where
  "add rnd36 now this printerId' ip' port' data' =
     (let job = \<lparr>job_id = drop 7 rnd36, printerId = printerId', ip = ip', port = port',
                 data = data', timestamp = now, attempts = 0\<rparr>
      in this\<lparr>queue := queue this @ [job]\<rparr>)"

text \<open>
  \<open>jobsByPrinter\<close> is a \<open>Map\<close>: it iterates in the order in which the keys were first
  set, and setting a key that is present keeps its place.
\<close>

fun mapSet :: "('k \<times> 'v) list \<Rightarrow> 'k \<Rightarrow> 'v \<Rightarrow> ('k \<times> 'v) list" where
  "mapSet [] k v = [(k, v)]"
| "mapSet ((k', v') # m) k v = (if k' = k then (k, v) # m else (k', v') # mapSet m k v)"

definition groupStep ::
  "(jsstr \<times> PrintJob list) list \<Rightarrow> PrintJob \<Rightarrow> (jsstr \<times> PrintJob list) list"
where
  "groupStep jobsByPrinter job =
     (let existing = (case map_of jobsByPrinter (printerId job) of None \<Rightarrow> [] | Some js \<Rightarrow> js)
      in mapSet jobsByPrinter (printerId job) (existing @ [job]))"

definition groupJobs :: "PrintJob list \<Rightarrow> (jsstr \<times> PrintJob list) list" where
  "groupJobs q = foldl groupStep [] q"

text \<open>The inner loop: every job of a ready printer is sent; a job whose send fails is kept.\<close>

fun sendJobs ::
  "(jsstr \<Rightarrow> byte list) \<Rightarrow> 'w net \<Rightarrow> 'w \<Rightarrow> PrintJob list \<Rightarrow> PrintJob list \<Rightarrow>
   PrintJob list \<times> 'w"
where
  "sendJobs cp858 nw w remainingJobs [] = (remainingJobs, w)"
| "sendJobs cp858 nw w remainingJobs (job # jobs) =
     (case sendToPrinter cp858 nw w (ip job) (port job) (data job) of
        (Inr _, w') \<Rightarrow> sendJobs cp858 nw w' remainingJobs jobs
      | (Inl err, w') \<Rightarrow> sendJobs cp858 nw w' (remainingJobs @ [job]) jobs)"

text \<open>
  One printer of the outer loop. The address is the one of the first job of the group;
  \<open>groupJobs\<close> never builds an empty group.
\<close>

definition processGroup ::
  "(jsstr \<Rightarrow> byte list) \<Rightarrow> 'w net \<Rightarrow> 'w \<Rightarrow> PrintJob list \<Rightarrow> jsstr \<times> PrintJob list \<Rightarrow>
   PrintJob list \<times> 'w"
where
  "processGroup cp858 nw w remainingJobs entry =
     (case entry of (printerId', jobs) \<Rightarrow>
        (case jobs of
           [] \<Rightarrow> (remainingJobs, w)
         | first # _ \<Rightarrow>
             (case getPrinterStatus nw w (ip first) (port first) of
                (Inr status, w') \<Rightarrow>
                  if status = OK \<or> status = CARTA_QUASI_FINITA
                  then sendJobs cp858 nw w' remainingJobs jobs
                  else (remainingJobs @ jobs, w')
              | (Inl err, w') \<Rightarrow> (remainingJobs @ jobs, w'))))"

fun processGroups ::
  "(jsstr \<Rightarrow> byte list) \<Rightarrow> 'w net \<Rightarrow> 'w \<Rightarrow> PrintJob list \<Rightarrow> (jsstr \<times> PrintJob list) list \<Rightarrow>
   PrintJob list \<times> 'w"
where
  "processGroups cp858 nw w remainingJobs [] = (remainingJobs, w)"
| "processGroups cp858 nw w remainingJobs (entry # entries) =
     (case processGroup cp858 nw w remainingJobs entry of
        (remainingJobs', w') \<Rightarrow> processGroups cp858 nw w' remainingJobs' entries)"

definition processQueue ::
  "(jsstr \<Rightarrow> byte list) \<Rightarrow> 'w net \<Rightarrow> 'w \<Rightarrow> PrintQueueManager \<Rightarrow> PrintQueueManager \<times> 'w"
where
  "processQueue cp858 nw w this =
     (if isProcessing this then (this, w)
      else if length (queue this) = 0 then (this, w)
      else (let this1 = this\<lparr>isProcessing := True\<rparr>;
                jobsByPrinter = groupJobs (queue this1)
            in case processGroups cp858 nw w [] jobsByPrinter of
                 (remainingJobs, w') \<Rightarrow>
                   (this1\<lparr>queue := remainingJobs, isProcessing := False\<rparr>, w')))"

section \<open>Safe print\<close>

definition safePrint ::
  "(jsstr \<Rightarrow> byte list) \<Rightarrow> 'w net \<Rightarrow> jsstr \<Rightarrow> int \<Rightarrow> 'w \<Rightarrow> PrintQueueManager \<Rightarrow>
   jsstr \<Rightarrow> jsstr \<Rightarrow> number \<Rightarrow> PrintData \<Rightarrow> PrintQueueManager \<times> 'w"
where
  "safePrint cp858 nw rnd36 now w printQueue printerId' ip' port' data' =
     (case getPrinterStatus nw w ip' port' of
        (Inr status, w') \<Rightarrow>
          if status = OK \<or> status = CARTA_QUASI_FINITA then
            (case sendToPrinter cp858 nw w' ip' port' data' of
               (Inr _, w'') \<Rightarrow> (printQueue, w'')
             | (Inl printErr, w'') \<Rightarrow>
                 (add rnd36 now printQueue printerId' ip' port' data', w''))
          else (add rnd36 now printQueue printerId' ip' port' data', w')
      | (Inl statusErr, w') \<Rightarrow> (add rnd36 now printQueue printerId' ip' port' data', w'))"

section \<open>A scripted network\<close>

text \<open>
  A concrete environment to run the transport on: the state is the list of the answers
  still to give and the trace of the operations performed so far. Each operation takes
  the next answer (a missing or unfitting answer is a failed connection) and adds its
  address and the bytes it wrote to the trace.
\<close>

datatype answer = AWrite bool | AQuery query_result

type_synonym world = "answer list \<times> (jsstr \<times> number \<times> byte list) list"

definition scriptedNet :: "world net" where
  "scriptedNet =
     \<lparr>netWrite = (\<lambda>w ip' port' bytes.
         (case fst w of AWrite ok # rest \<Rightarrow> ok | _ \<Rightarrow> False,
          (drop 1 (fst w), snd w @ [(ip', port', bytes)]))),
      netQuery = (\<lambda>w ip' port' bytes.
         (case fst w of AQuery r # rest \<Rightarrow> r | _ \<Rightarrow> QError,
          (drop 1 (fst w), snd w @ [(ip', port', bytes)])))\<rparr>"

section \<open>Sequences of enqueue calls\<close>

text \<open>
  A call of \<open>add\<close> with what the environment gives it: the random text, the clock, and
  the four arguments.
\<close>

type_synonym add_call = "jsstr \<times> int \<times> jsstr \<times> jsstr \<times> number \<times> PrintData"

definition jobOf :: "add_call \<Rightarrow> PrintJob" where
  "jobOf c = (case c of (rnd36, now, printerId', ip', port', data') \<Rightarrow>
     \<lparr>job_id = drop 7 rnd36, printerId = printerId', ip = ip', port = port',
      data = data', timestamp = now, attempts = 0\<rparr>)"

fun addAll :: "PrintQueueManager \<Rightarrow> add_call list \<Rightarrow> PrintQueueManager" where
  "addAll this [] = this"
| "addAll this ((rnd36, now, printerId', ip', port', data') # calls) =
     addAll (add rnd36 now this printerId' ip' port' data') calls"

section \<open>The sweep as the specification words it\<close>

text \<open>
  The printers of the queue in the order of their first job, the jobs of one printer in
  queue order, the answer of every send of a group, and the jobs that stay.
\<close>

definition firstOcc :: "'a list \<Rightarrow> 'a list" where
  "firstOcc xs = rev (remdups (rev xs))"

definition jobsOf :: "PrintJob list \<Rightarrow> jsstr \<Rightarrow> PrintJob list" where
  "jobsOf q k = filter (\<lambda>j. printerId j = k) q"

fun sendEach ::
  "(jsstr \<Rightarrow> byte list) \<Rightarrow> 'w net \<Rightarrow> 'w \<Rightarrow> PrintJob list \<Rightarrow> (error + unit) list \<times> 'w"
where
  "sendEach cp858 nw w [] = ([], w)"
| "sendEach cp858 nw w (job # jobs) =
     (case sendToPrinter cp858 nw w (ip job) (port job) (data job) of
        (r, w') \<Rightarrow> (case sendEach cp858 nw w' jobs of (rs, w'') \<Rightarrow> (r # rs, w'')))"

definition failedJobs :: "PrintJob list \<Rightarrow> (error + unit) list \<Rightarrow> PrintJob list" where
  "failedJobs jobs rs = map fst (filter (\<lambda>jr. isl (snd jr)) (zip jobs rs))"

definition keptOfGroup ::
  "(jsstr \<Rightarrow> byte list) \<Rightarrow> 'w net \<Rightarrow> 'w \<Rightarrow> PrintJob list \<Rightarrow> PrintJob list \<times> 'w"
where
  "keptOfGroup cp858 nw w jobs =
     (case jobs of
        [] \<Rightarrow> ([], w)
      | first # _ \<Rightarrow>
          (case getPrinterStatus nw w (ip first) (port first) of
             (st, w1) \<Rightarrow>
               if st = Inr OK \<or> st = Inr CARTA_QUASI_FINITA
               then (case sendEach cp858 nw w1 jobs of (rs, w2) \<Rightarrow> (failedJobs jobs rs, w2))
               else (jobs, w1)))"

fun sweepSpec ::
  "(jsstr \<Rightarrow> byte list) \<Rightarrow> 'w net \<Rightarrow> 'w \<Rightarrow> PrintJob list \<Rightarrow> jsstr list \<Rightarrow> PrintJob list \<times> 'w"
where
  "sweepSpec cp858 nw w q [] = ([], w)"
| "sweepSpec cp858 nw w q (k # ks) =
     (case keptOfGroup cp858 nw w (jobsOf q k) of
        (kept, w1) \<Rightarrow> (case sweepSpec cp858 nw w1 q ks of (rest, w2) \<Rightarrow> (kept @ rest, w2)))"

text \<open>A job to run the sweep on: its id, its printer and the ip of the printer.\<close>

definition exampleJob :: "string \<Rightarrow> string \<Rightarrow> string \<Rightarrow> PrintJob" where
  "exampleJob i p a =
     \<lparr>job_id = lit i, printerId = lit p, ip = lit a, port = Finite 9100,
      data = One (Text (lit i)), timestamp = 0, attempts = 0\<rparr>"

text \<open>
  An image library to run the rasterizer on: the canvas is two rows high and black on the
  diagonal, whatever the file.
\<close>

definition diagonalLib :: jimp where
  "diagonalLib filePath options paddedWidth =
     Some \<lparr>itemHeight = 2, pixelRA = (\<lambda>x y. if x = y then (0, 255) else (255, 255))\<rparr>"

definition width10 :: ImageOptions where
  "width10 = \<lparr>paperWidth = Some 10, exactWidth = None, exactHeight = None, inlineText = None\<rparr>"

section \<open>Reading the counters, and receipts that fit\<close>

definition progressOf :: "counters \<Rightarrow> jsstr \<Rightarrow> int" where
  "progressOf progressCounters printerId' =
     (case progressCounters printerId' of None \<Rightarrow> 1 | Some n \<Rightarrow> n)"

text \<open>
  \<open>wrapText\<close> returns when the indent is not longer than the width. The indent of an item
  is as long as its quantity prefix, and the indent of its note six more. On a kitchen
  receipt the width is 48; on a cash receipt the name has what the price column leaves.
\<close>

definition fitsKitchen :: "'a KitchenReceiptLine_scheme \<Rightarrow> bool" where
  "fitsKitchen l \<longleftrightarrow>
     int (length (showInt (qtyOf l))) + 2 \<le> RECEIPT_W \<and>
     (trimStr (notes' l) \<noteq> [] \<longrightarrow> int (length (showInt (qtyOf l))) + 8 \<le> RECEIPT_W)"

definition fitsCash :: "host \<Rightarrow> 'a CashReceiptLine_scheme \<Rightarrow> bool" where
  "fitsCash h l \<longleftrightarrow>
     int (length (showInt (qtyOf l))) + 2 \<le>
       RECEIPT_W
       - int (length (eurCol h (unitBaseOf h l * of_int (qtyOf l)
                                + unitExtraOf h l * of_int (qtyOf l))))
       - 1 \<and>
     (trimStr (notes' l) \<noteq> [] \<longrightarrow> int (length (showInt (qtyOf l))) + 8 \<le> RECEIPT_W)"

text \<open>
  A host to run the receipts on: \<open>toFixed(2)\<close> as the exact decimal rendering of a
  non-negative amount rounded half up, no string parses as a number, no string is a
  date, and upper case is the identity.
\<close>

definition fixed2 :: "rat \<Rightarrow> jsstr" where
  "fixed2 q =
     (let n = nat \<lfloor>q * 100 + 1 / 2\<rfloor>
      in showNat (n div 100) @ lit ''.'' @ padStart2 (showNat (n mod 100)))"

definition exampleHost :: host where
  "exampleHost =
     \<lparr>toFixed2 = fixed2, parseNumber = (\<lambda>s. None), newDate = (\<lambda>s. None),
      toUpperCase = (\<lambda>s. s)\<rparr>"

definition exampleOrder :: IncomingOrder where
  "exampleOrder =
     \<lparr>order_id = IdNum 7, displayCode = Some (lit ''A12''), table = Some (lit ''4''),
      customer = None, confirmedAt = None, ticketNumber = None, paymentMethod = None,
      discount = NumV 5\<rparr>"

definition exampleLines :: "CashReceiptLine list" where
  "exampleLines =
     [\<lparr>foodName = lit ''Pizza margherita'', quantity = Some 2, notes' = None,
       unitPrice = Some (15 / 2), surcharge = Some 1\<rparr>,
      \<lparr>foodName = lit ''Cola'', quantity = Some 1, notes' = Some (lit ''no ice''),
       unitPrice = Some 3, surcharge = None\<rparr>]"

section \<open>Invariants of the wrap loop\<close>

text \<open>
  The state of the loop over the words is \<open>(lines, currentLine)\<close>. \<open>content\<close> is what
  the lines hold once the indents and the white space are taken away; \<open>invC\<close> says that a
  continuation line starts with the indent; \<open>invL\<close> bounds the lines and the current line.
\<close>

definition content :: "jsstr \<Rightarrow> jsstr list \<Rightarrow> jsstr" where
  "content indent ls = nonWs (concat (stripIndents indent ls))"

definition invC :: "jsstr \<Rightarrow> jsstr list \<times> jsstr \<Rightarrow> bool" where
  "invC indent st = (case st of (lines, cur) \<Rightarrow> lines \<noteq> [] \<longrightarrow> (\<exists>stuff. cur = indent @ stuff))"

definition stateContent :: "jsstr \<Rightarrow> jsstr list \<times> jsstr \<Rightarrow> jsstr" where
  "stateContent indent st = (case st of (lines, cur) \<Rightarrow>
     content indent lines @ nonWs (if lines = [] then cur else drop (length indent) cur))"

definition invL :: "int \<Rightarrow> jsstr list \<times> jsstr \<Rightarrow> bool" where
  "invL maxWidth st = (case st of (lines, cur) \<Rightarrow>
     (\<forall>l\<in>set lines. int (length l) \<le> maxWidth) \<and> int (length cur) \<le> maxWidth + 1 \<and>
     (cur = [] \<or> last cur = SP))"

section \<open>Properties of the word wrap\<close>

subsection \<open>The hard-split loop\<close>

lemma hardSplit_unfold:
  "int (length (currentLine @ tempWord)) > maxWidth \<Longrightarrow>
   hardSplit maxWidth indent lines currentLine tempWord =
   hardSplit maxWidth indent
     (lines @ [currentLine @ take (nat (max 1 (maxWidth - int (length currentLine)))) tempWord])
     indent (drop (nat (max 1 (maxWidth - int (length currentLine)))) tempWord)"
  by (subst hardSplit.simps) (simp add: Let_def)

lemma hardSplit_exit:
  "\<not> int (length (currentLine @ tempWord)) > maxWidth \<Longrightarrow>
   hardSplit maxWidth indent lines currentLine tempWord = Some (lines, currentLine, tempWord)"
  by (subst hardSplit.simps) simp

lemma hardSplit_total:
  "int (length indent) \<le> maxWidth \<Longrightarrow> int (length currentLine) \<le> maxWidth \<Longrightarrow>
   \<exists>r. hardSplit maxWidth indent lines currentLine tempWord = Some r"
proof (induction "length tempWord" arbitrary: tempWord lines currentLine rule: less_induct)
  case less
  show ?case
  proof (cases "int (length (currentLine @ tempWord)) > maxWidth")
    case False
    then show ?thesis by (simp add: hardSplit_exit)
  next
    case True
    let ?n = "nat (max 1 (maxWidth - int (length currentLine)))"
    from True less.prems(2) have ne: "tempWord \<noteq> []" by auto
    then have "length (drop ?n tempWord) < length tempWord" by simp
    from less.hyps[OF this less.prems(1) less.prems(1), of "lines @ [currentLine @ take ?n tempWord]"]
    show ?thesis by (simp add: hardSplit_unfold[OF True])
  qed
qed

lemma hardSplit_diverges_aux:
  assumes "hardSplit maxWidth indent lines currentLine tempWord = Some r"
  shows "\<not> (int (length indent) > maxWidth \<and> int (length (currentLine @ tempWord)) > maxWidth)"
proof (rule hardSplit.raw_induct[where P = "\<lambda>mw ind ls cur w r. \<not> (int (length ind) > mw \<and> int (length (cur @ w)) > mw)", OF _ assms])
  fix f mw ind ls cur w y
  assume IH: "\<And>a b c d e y. f a b c d e = Some y \<Longrightarrow> \<not> (int (length b) > a \<and> int (length (d @ e)) > a)"
    and step: "(if int (length (cur @ w)) > mw then
        (let cutLen = max 1 (mw - int (length cur))
         in f mw ind (ls @ [cur @ take (nat cutLen) w]) ind (drop (nat cutLen) w))
      else Some (ls, cur, w)) = Some y"
  show "\<not> (int (length ind) > mw \<and> int (length (cur @ w)) > mw)"
  proof
    assume a: "int (length ind) > mw \<and> int (length (cur @ w)) > mw"
    let ?n = "nat (max 1 (mw - int (length cur)))"
    from a step have "f mw ind (ls @ [cur @ take ?n w]) ind (drop ?n w) = Some y"
      by (simp add: Let_def)
    from IH[OF this] a show False by simp
  qed
qed

lemma hardSplit_diverges:
  "int (length indent) > maxWidth \<Longrightarrow> int (length (currentLine @ tempWord)) > maxWidth \<Longrightarrow>
   hardSplit maxWidth indent lines currentLine tempWord = None"
  using hardSplit_diverges_aux[of maxWidth indent lines currentLine tempWord]
  by (cases "hardSplit maxWidth indent lines currentLine tempWord") auto

subsection \<open>Trimming\<close>

lemma isWhiteSpace_SP [simp]: "isWhiteSpace SP"
  by (simp add: isWhiteSpace_def SP_def)

lemma nonWs_append [simp]: "nonWs (xs @ ys) = nonWs xs @ nonWs ys"
  by (simp add: nonWs_def)

lemma nonWs_Nil [simp]: "nonWs [] = []"
  by (simp add: nonWs_def)

lemma nonWs_SP [simp]: "nonWs [SP] = []"
  by (simp add: nonWs_def)

lemma nonWs_all_ws: "\<forall>c\<in>set s. isWhiteSpace c \<Longrightarrow> nonWs s = []"
  by (simp add: nonWs_def)

lemma nonWs_empty_iff: "nonWs s = [] \<longleftrightarrow> (\<forall>c\<in>set s. isWhiteSpace c)"
  by (auto simp: nonWs_def filter_empty_conv)

lemma trimEnd_append:
  "trimEnd (xs @ ys) = (if \<forall>c\<in>set ys. isWhiteSpace c then trimEnd xs else xs @ trimEnd ys)"
  by (simp add: trimEnd_def dropWhile_append)

lemma trimEnd_Nil [simp]: "trimEnd [] = []"
  by (simp add: trimEnd_def)

lemma trimEnd_decomp: "\<exists>t. s = trimEnd s @ t \<and> (\<forall>c\<in>set t. isWhiteSpace c)"
proof -
  have "rev s = takeWhile isWhiteSpace (rev s) @ dropWhile isWhiteSpace (rev s)" by simp
  then have "s = rev (dropWhile isWhiteSpace (rev s)) @ rev (takeWhile isWhiteSpace (rev s))"
    by (metis rev_append rev_rev_ident)
  moreover have "\<forall>c\<in>set (rev (takeWhile isWhiteSpace (rev s))). isWhiteSpace c"
    by (auto dest: set_takeWhileD)
  ultimately show ?thesis unfolding trimEnd_def by blast
qed

lemma nonWs_trimEnd [simp]: "nonWs (trimEnd s) = nonWs s"
proof -
  obtain t where t: "s = trimEnd s @ t" "\<forall>c\<in>set t. isWhiteSpace c"
    using trimEnd_decomp by blast
  have "nonWs s = nonWs (trimEnd s @ t)" using t(1) by simp
  then show ?thesis using t(2) by (simp add: nonWs_all_ws)
qed

lemma length_trimEnd_le: "length (trimEnd s) \<le> length s"
proof -
  obtain t where t: "s = trimEnd s @ t" using trimEnd_decomp by blast
  have "length s = length (trimEnd s @ t)" using t by simp
  then show ?thesis by simp
qed

lemma length_trimEnd_snoc_SP: "length (trimEnd (b @ [SP])) \<le> length b"
  by (simp add: trimEnd_append length_trimEnd_le)

lemma nonWs_drop_trimEnd:
  "nonWs (drop (length indent) (trimEnd (indent @ stuff))) = nonWs stuff"
proof (cases "\<forall>c\<in>set stuff. isWhiteSpace c")
  case True
  then have "trimEnd (indent @ stuff) = trimEnd indent" by (simp add: trimEnd_append)
  then have "drop (length indent) (trimEnd (indent @ stuff)) = []"
    by (simp add: length_trimEnd_le)
  with True show ?thesis by (simp add: nonWs_all_ws)
next
  case False
  then have "trimEnd (indent @ stuff) = indent @ trimEnd stuff"
    using trimEnd_append[of indent stuff] by auto
  then show ?thesis by simp
qed

lemma trimStart_empty_iff: "trimStart s = [] \<longleftrightarrow> (\<forall>c\<in>set s. isWhiteSpace c)"
  by (simp add: trimStart_def dropWhile_eq_Nil_conv)

lemma trimEnd_empty_iff: "trimEnd s = [] \<longleftrightarrow> (\<forall>c\<in>set s. isWhiteSpace c)"
  by (simp add: trimEnd_def dropWhile_eq_Nil_conv)

lemma trim_empty_iff: "trim s = [] \<longleftrightarrow> (\<forall>c\<in>set s. isWhiteSpace c)"
proof
  assume "trim s = []"
  then have "\<forall>c\<in>set (trimStart s). isWhiteSpace c" by (simp add: trim_def trimEnd_empty_iff)
  then have "nonWs (trimStart s) = []" by (simp add: nonWs_all_ws)
  moreover have "nonWs (trimStart s) = nonWs s"
  proof -
    have "s = takeWhile isWhiteSpace s @ dropWhile isWhiteSpace s" by simp
    then have "nonWs s = nonWs (takeWhile isWhiteSpace s) @ nonWs (trimStart s)"
      by (metis nonWs_append trimStart_def)
    moreover have "nonWs (takeWhile isWhiteSpace s) = []"
      by (rule nonWs_all_ws) (auto dest: set_takeWhileD)
    ultimately show ?thesis by simp
  qed
  ultimately show "\<forall>c\<in>set s. isWhiteSpace c" by (simp add: nonWs_empty_iff)
next
  assume "\<forall>c\<in>set s. isWhiteSpace c"
  then have "trimStart s = []" by (simp add: trimStart_empty_iff)
  then show "trim s = []" by (simp add: trim_def)
qed

lemma stripIndents_snoc:
  "stripIndents indent (ls @ [l]) =
   stripIndents indent ls @ [if ls = [] then l else drop (length indent) l]"
  by (cases ls) (simp_all add: stripIndents_def)

lemma content_Nil [simp]: "content indent [] = []"
  by (simp add: content_def stripIndents_def)

lemma content_snoc:
  "content indent (ls @ [l]) =
   content indent ls @ nonWs (if ls = [] then l else drop (length indent) l)"
  by (simp add: content_def stripIndents_snoc)

lemma nonWs_take_drop: "nonWs (take n w) @ nonWs (drop n w) = nonWs w"
  by (metis append_take_drop_id nonWs_append)

lemma hardSplit_content:
  assumes "hardSplit maxWidth indent lines currentLine tempWord = Some r"
  shows "currentLine = (if lines = [] then [] else indent) \<longrightarrow>
     (case r of (lines', cur', rest) \<Rightarrow>
        cur' = (if lines' = [] then [] else indent) \<and>
        content indent lines' @ nonWs rest = content indent lines @ nonWs tempWord)"
proof (rule hardSplit.raw_induct[where P = "\<lambda>mw ind ls cur w r.
     cur = (if ls = [] then [] else ind) \<longrightarrow>
     (case r of (lines', cur', rest) \<Rightarrow>
        cur' = (if lines' = [] then [] else ind) \<and>
        content ind lines' @ nonWs rest = content ind ls @ nonWs w)", OF _ assms])
  fix f mw ind ls cur w y
  assume IH: "\<And>a b c d e y. f a b c d e = Some y \<Longrightarrow>
        d = (if c = [] then [] else b) \<longrightarrow>
        (case y of (lines', cur', rest) \<Rightarrow>
           cur' = (if lines' = [] then [] else b) \<and>
           content b lines' @ nonWs rest = content b c @ nonWs e)"
    and step: "(if int (length (cur @ w)) > mw then
        (let cutLen = max 1 (mw - int (length cur))
         in f mw ind (ls @ [cur @ take (nat cutLen) w]) ind (drop (nat cutLen) w))
      else Some (ls, cur, w)) = Some y"
  show "cur = (if ls = [] then [] else ind) \<longrightarrow>
        (case y of (lines', cur', rest) \<Rightarrow>
           cur' = (if lines' = [] then [] else ind) \<and>
           content ind lines' @ nonWs rest = content ind ls @ nonWs w)"
  proof
    assume pre: "cur = (if ls = [] then [] else ind)"
    show "case y of (lines', cur', rest) \<Rightarrow>
           cur' = (if lines' = [] then [] else ind) \<and>
           content ind lines' @ nonWs rest = content ind ls @ nonWs w"
    proof (cases "int (length (cur @ w)) > mw")
      case False
      with step pre show ?thesis by auto
    next
      case True
      let ?n = "nat (max 1 (mw - int (length cur)))"
      from True step have "f mw ind (ls @ [cur @ take ?n w]) ind (drop ?n w) = Some y"
        by (simp add: Let_def)
      from IH[OF this] have r: "case y of (lines', cur', rest) \<Rightarrow>
           cur' = (if lines' = [] then [] else ind) \<and>
           content ind lines' @ nonWs rest = content ind (ls @ [cur @ take ?n w]) @ nonWs (drop ?n w)"
        by simp
      have "content ind (ls @ [cur @ take ?n w]) = content ind ls @ nonWs (take ?n w)"
        using pre by (simp add: content_snoc)
      then have "content ind (ls @ [cur @ take ?n w]) @ nonWs (drop ?n w) = content ind ls @ nonWs w"
        by (simp add: nonWs_take_drop)
      with r show ?thesis by (auto split: prod.splits)
    qed
  qed
qed

lemma hardSplit_lengths:
  assumes "hardSplit maxWidth indent lines currentLine tempWord = Some r"
  shows "int (length indent) < maxWidth \<and> int (length currentLine) < maxWidth \<longrightarrow>
     (case r of (lines', cur', rest) \<Rightarrow>
        (\<exists>ps. lines' = lines @ ps \<and> (\<forall>p\<in>set ps. int (length p) = maxWidth)) \<and>
        int (length (cur' @ rest)) \<le> maxWidth)"
proof (rule hardSplit.raw_induct[where P = "\<lambda>mw ind ls cur w r.
     int (length ind) < mw \<and> int (length cur) < mw \<longrightarrow>
     (case r of (lines', cur', rest) \<Rightarrow>
        (\<exists>ps. lines' = ls @ ps \<and> (\<forall>p\<in>set ps. int (length p) = mw)) \<and>
        int (length (cur' @ rest)) \<le> mw)", OF _ assms])
  fix f mw ind ls cur w y
  assume IH: "\<And>a b c d e y. f a b c d e = Some y \<Longrightarrow>
        int (length b) < a \<and> int (length d) < a \<longrightarrow>
        (case y of (lines', cur', rest) \<Rightarrow>
           (\<exists>ps. lines' = c @ ps \<and> (\<forall>p\<in>set ps. int (length p) = a)) \<and>
           int (length (cur' @ rest)) \<le> a)"
    and step: "(if int (length (cur @ w)) > mw then
        (let cutLen = max 1 (mw - int (length cur))
         in f mw ind (ls @ [cur @ take (nat cutLen) w]) ind (drop (nat cutLen) w))
      else Some (ls, cur, w)) = Some y"
  show "int (length ind) < mw \<and> int (length cur) < mw \<longrightarrow>
        (case y of (lines', cur', rest) \<Rightarrow>
           (\<exists>ps. lines' = ls @ ps \<and> (\<forall>p\<in>set ps. int (length p) = mw)) \<and>
           int (length (cur' @ rest)) \<le> mw)"
  proof
    assume pre: "int (length ind) < mw \<and> int (length cur) < mw"
    show "case y of (lines', cur', rest) \<Rightarrow>
           (\<exists>ps. lines' = ls @ ps \<and> (\<forall>p\<in>set ps. int (length p) = mw)) \<and>
           int (length (cur' @ rest)) \<le> mw"
    proof (cases "int (length (cur @ w)) > mw")
      case False
      with step show ?thesis by auto
    next
      case True
      let ?n = "nat (max 1 (mw - int (length cur)))"
      from True step have "f mw ind (ls @ [cur @ take ?n w]) ind (drop ?n w) = Some y"
        by (simp add: Let_def)
      from IH[OF this] pre have r: "case y of (lines', cur', rest) \<Rightarrow>
           (\<exists>ps. lines' = (ls @ [cur @ take ?n w]) @ ps \<and> (\<forall>p\<in>set ps. int (length p) = mw)) \<and>
           int (length (cur' @ rest)) \<le> mw"
        by simp
      have len: "int (length (cur @ take ?n w)) = mw"
        using True pre by (auto simp: min_def)
      obtain lines' cur' rest where y: "y = (lines', cur', rest)" by (cases y)
      from r y obtain ps where ps: "lines' = (ls @ [cur @ take ?n w]) @ ps"
          "\<forall>p\<in>set ps. int (length p) = mw" "int (length (cur' @ rest)) \<le> mw"
        by auto
      have "lines' = ls @ ((cur @ take ?n w) # ps)" using ps(1) by simp
      moreover have "\<forall>p\<in>set ((cur @ take ?n w) # ps). int (length p) = mw"
        using ps(2) len by simp
      ultimately show ?thesis using y ps(3) by blast
    qed
  qed
qed

subsection \<open>The loop over the words\<close>

lemma content_single [simp]: "content indent [l] = nonWs l"
  using content_snoc[of indent "[]" l] by simp

lemma content_push_trimEnd:
  assumes "invC indent (lines, cur)"
  shows "content indent (lines @ [trimEnd cur]) = stateContent indent (lines, cur)"
proof (cases "lines = []")
  case True
  then show ?thesis by (simp add: content_snoc stateContent_def)
next
  case False
  with assms obtain stuff where "cur = indent @ stuff"
    by (auto simp: invC_def)
  with False show ?thesis
    by (simp add: content_snoc stateContent_def nonWs_drop_trimEnd)
qed

lemma wrapWord_content:
  assumes inv: "invC indent (lines, cur)"
    and w: "wrapWord maxWidth indent (lines, cur) word = Some st'"
  shows "invC indent st' \<and> stateContent indent st' = stateContent indent (lines, cur) @ nonWs word"
proof (cases "int (length (cur @ word)) > maxWidth")
  case False
  with w have st': "st' = (lines, cur @ word @ [SP])" by (simp add: wrapWord_def)
  show ?thesis
  proof (cases "lines = []")
    case True
    then show ?thesis unfolding st' by (simp add: invC_def stateContent_def)
  next
    case False
    with inv obtain stuff where "cur = indent @ stuff" by (auto simp: invC_def)
    with False show ?thesis unfolding st' by (simp add: invC_def stateContent_def)
  qed
next
  case True
  define lines1 where "lines1 = (if length cur > 0 then lines @ [trimEnd cur] else lines)"
  define prefix where "prefix = (if length lines1 > 0 then indent else [])"
  have c1: "content indent lines1 = stateContent indent (lines, cur)"
  proof (cases "cur = []")
    case True
    then show ?thesis by (simp add: lines1_def stateContent_def)
  next
    case False
    then show ?thesis using content_push_trimEnd[OF inv] by (simp add: lines1_def)
  qed
  show ?thesis
  proof (cases "int (length (prefix @ word)) > maxWidth")
    case False
    with True w have st': "st' = (lines1, prefix @ word @ [SP])"
      by (simp add: wrapWord_def Let_def lines1_def prefix_def)
    show ?thesis unfolding st' using c1
      by (auto simp: invC_def stateContent_def prefix_def)
  next
    case hs: True
    from True hs w obtain lines2 cur2 rest where
      h: "hardSplit maxWidth indent lines1 prefix word = Some (lines2, cur2, rest)"
      and st': "st' = (lines2, cur2 @ rest @ [SP])"
      by (auto simp: wrapWord_def Let_def lines1_def prefix_def split: option.splits)
    have "prefix = (if lines1 = [] then [] else indent)" by (simp add: prefix_def)
    with hardSplit_content[OF h] have
      r: "cur2 = (if lines2 = [] then [] else indent)"
         "content indent lines2 @ nonWs rest = content indent lines1 @ nonWs word"
      by auto
    show ?thesis unfolding st' using r c1
      by (auto simp: invC_def stateContent_def)
  qed
qed

lemma wrapWord_lengths:
  assumes ind: "int (length indent) < maxWidth"
    and inv: "invL maxWidth (lines, cur)"
    and w: "wrapWord maxWidth indent (lines, cur) word = Some st'"
  shows "invL maxWidth st'"
proof (cases "int (length (cur @ word)) > maxWidth")
  case False
  with w have st': "st' = (lines, cur @ word @ [SP])" by (simp add: wrapWord_def)
  show ?thesis using inv False unfolding st' by (auto simp: invL_def)
next
  case True
  define lines1 where "lines1 = (if length cur > 0 then lines @ [trimEnd cur] else lines)"
  define prefix where "prefix = (if length lines1 > 0 then indent else [])"
  have l1: "\<forall>l\<in>set lines1. int (length l) \<le> maxWidth"
  proof (cases "cur = []")
    case True
    then show ?thesis using inv by (simp add: lines1_def invL_def)
  next
    case False
    with inv have "last cur = SP" by (simp add: invL_def)
    with False obtain b where b: "cur = b @ [SP]" by (metis append_butlast_last_id)
    have "length (trimEnd cur) \<le> length b" unfolding b by (rule length_trimEnd_snoc_SP)
    moreover have "int (length cur) \<le> maxWidth + 1" using inv by (simp add: invL_def)
    ultimately have "int (length (trimEnd cur)) \<le> maxWidth" using b by simp
    then show ?thesis using inv False by (simp add: lines1_def invL_def)
  qed
  have pl: "int (length prefix) < maxWidth" using ind by (simp add: prefix_def)
  show ?thesis
  proof (cases "int (length (prefix @ word)) > maxWidth")
    case False
    with True w have st': "st' = (lines1, prefix @ word @ [SP])"
      by (simp add: wrapWord_def Let_def lines1_def prefix_def)
    show ?thesis unfolding st' using l1 False by (auto simp: invL_def)
  next
    case hs: True
    from True hs w obtain lines2 cur2 rest where
      h: "hardSplit maxWidth indent lines1 prefix word = Some (lines2, cur2, rest)"
      and st': "st' = (lines2, cur2 @ rest @ [SP])"
      by (auto simp: wrapWord_def Let_def lines1_def prefix_def split: option.splits)
    from hardSplit_lengths[OF h] ind pl obtain ps where
      r: "lines2 = lines1 @ ps" "\<forall>p\<in>set ps. int (length p) = maxWidth"
         "int (length (cur2 @ rest)) \<le> maxWidth"
      by auto
    show ?thesis unfolding st' using r l1 by (auto simp: invL_def)
  qed
qed

lemma wrapWord_total:
  assumes ind: "int (length indent) \<le> maxWidth"
  shows "\<exists>st'. wrapWord maxWidth indent st word = Some st'"
proof -
  obtain lines cur where st: "st = (lines, cur)" by (cases st)
  define lines1 where "lines1 = (if length cur > 0 then lines @ [trimEnd cur] else lines)"
  define prefix where "prefix = (if length lines1 > 0 then indent else [])"
  have "int (length prefix) \<le> maxWidth" using ind by (simp add: prefix_def)
  from hardSplit_total[OF ind this, of lines1 word]
  obtain r where "hardSplit maxWidth indent lines1 prefix word = Some r" by blast
  then show ?thesis unfolding st
    by (cases r) (simp add: wrapWord_def Let_def lines1_def prefix_def)
qed

lemma wrapWords_total:
  "int (length indent) \<le> maxWidth \<Longrightarrow> \<exists>st'. wrapWords maxWidth indent st words = Some st'"
proof (induction words arbitrary: st)
  case Nil
  then show ?case by simp
next
  case (Cons w ws)
  from wrapWord_total[OF Cons.prems, of st w] obtain st1 where
    "wrapWord maxWidth indent st w = Some st1" by blast
  with Cons.IH[OF Cons.prems, of st1] show ?case by simp
qed

lemma wrapWords_content:
  "invC indent st \<Longrightarrow> wrapWords maxWidth indent st words = Some st' \<Longrightarrow>
   invC indent st' \<and> stateContent indent st' = stateContent indent st @ nonWs (concat words)"
proof (induction words arbitrary: st)
  case Nil
  then show ?case by simp
next
  case (Cons w ws)
  from Cons.prems(2) obtain st1 where
    s1: "wrapWord maxWidth indent st w = Some st1" and
    s2: "wrapWords maxWidth indent st1 ws = Some st'"
    by (auto split: option.splits)
  obtain lines cur where st: "st = (lines, cur)" by (cases st)
  from wrapWord_content[OF Cons.prems(1)[unfolded st] s1[unfolded st]]
  have a: "invC indent st1" "stateContent indent st1 = stateContent indent st @ nonWs w"
    by (simp_all add: st)
  from Cons.IH[OF a(1) s2] a(2) show ?case by simp
qed

lemma wrapWords_lengths:
  "int (length indent) < maxWidth \<Longrightarrow> invL maxWidth st \<Longrightarrow>
   wrapWords maxWidth indent st words = Some st' \<Longrightarrow> invL maxWidth st'"
proof (induction words arbitrary: st)
  case Nil
  then show ?case by simp
next
  case (Cons w ws)
  from Cons.prems(3) obtain st1 where
    s1: "wrapWord maxWidth indent st w = Some st1" and
    s2: "wrapWords maxWidth indent st1 ws = Some st'"
    by (auto split: option.splits)
  obtain lines cur where st: "st = (lines, cur)" by (cases st)
  from wrapWord_lengths[OF Cons.prems(1) Cons.prems(2)[unfolded st] s1[unfolded st]]
  have "invL maxWidth st1" .
  from Cons.IH[OF Cons.prems(1) this s2] show ?case .
qed

lemma concat_split: "concat (split sep s) = filter (\<lambda>c. c \<noteq> sep) s"
  by (induction s) (auto split: list.splits)

lemma nonWs_concat_split: "nonWs (concat (split SP s)) = nonWs s"
proof -
  have "nonWs (filter (\<lambda>c. c \<noteq> SP) s) = nonWs s"
    unfolding nonWs_def by (induction s) auto
  then show ?thesis by (simp add: concat_split)
qed

lemma wrapText_total:
  "int (length indent) \<le> maxWidth \<Longrightarrow> \<exists>ls. wrapText text maxWidth indent = Some ls"
  using wrapWords_total[of indent maxWidth "([], [])" "split SP text"]
  by (auto simp: wrapText_def)

lemma final_content:
  assumes "invC indent (lines, cur)"
  shows "content indent (if length (trim cur) > 0 then lines @ [trimEnd cur] else lines) =
         stateContent indent (lines, cur)"
proof (cases "trim cur = []")
  case False
  then show ?thesis using content_push_trimEnd[OF assms] by simp
next
  case True
  then have ws: "\<forall>c\<in>set cur. isWhiteSpace c" by (simp add: trim_empty_iff)
  then have "nonWs cur = []" by (simp add: nonWs_all_ws)
  moreover have "nonWs (drop (length indent) cur) = []"
    using ws by (auto intro!: nonWs_all_ws dest: in_set_dropD)
  ultimately show ?thesis using True by (simp add: stateContent_def)
qed

lemma wrapText_content:
  assumes "wrapText text maxWidth indent = Some ls"
  shows "nonWs (concat (stripIndents indent ls)) = nonWs text"
proof -
  from assms obtain lines cur where
    w: "wrapWords maxWidth indent ([], []) (split SP text) = Some (lines, cur)"
    and ls: "ls = (if length (trim cur) > 0 then lines @ [trimEnd cur] else lines)"
    by (auto simp: wrapText_def split: option.splits)
  have "invC indent ([], [])" by (simp add: invC_def)
  from wrapWords_content[OF this w] have
    "invC indent (lines, cur)"
    "stateContent indent (lines, cur) = nonWs (concat (split SP text))"
    by (simp_all add: stateContent_def)
  with final_content[of indent lines cur] ls show ?thesis
    by (simp add: content_def nonWs_concat_split)
qed

lemma wrapText_lengths:
  assumes "int (length indent) < maxWidth" "wrapText text maxWidth indent = Some ls"
  shows "\<forall>l\<in>set ls. int (length l) \<le> maxWidth"
proof -
  from assms(2) obtain lines cur where
    w: "wrapWords maxWidth indent ([], []) (split SP text) = Some (lines, cur)"
    and ls: "ls = (if length (trim cur) > 0 then lines @ [trimEnd cur] else lines)"
    by (auto simp: wrapText_def split: option.splits)
  have "invL maxWidth ([], [])" using assms(1) by (simp add: invL_def)
  from wrapWords_lengths[OF assms(1) this w] have i: "invL maxWidth (lines, cur)" .
  have "int (length (trimEnd cur)) \<le> maxWidth"
  proof (cases "cur = []")
    case True
    then show ?thesis using assms(1) by simp
  next
    case False
    with i have "last cur = SP" by (simp add: invL_def)
    with False obtain b where b: "cur = b @ [SP]" by (metis append_butlast_last_id)
    have "length (trimEnd cur) \<le> length b" unfolding b by (rule length_trimEnd_snoc_SP)
    moreover have "int (length cur) \<le> maxWidth + 1" using i by (simp add: invL_def)
    ultimately show ?thesis using b by simp
  qed
  with i ls show ?thesis by (auto simp: invL_def)
qed

lemma split_no_sep: "sep \<notin> set s \<Longrightarrow> split sep s = [s]"
  by (induction s) auto

lemma wrapText_single_word:
  assumes ind: "int (length indent) < maxWidth"
    and nosp: "SP \<notin> set text"
    and long: "maxWidth < int (length text)"
    and w: "wrapText text maxWidth indent = Some ls"
  shows "\<exists>ps lst. ls = take (nat maxWidth) text # ps @ lst \<and> length lst \<le> 1 \<and>
                  (\<forall>p\<in>set ps. int (length p) = maxWidth)"
proof -
  let ?n = "nat maxWidth"
  have u: "hardSplit maxWidth indent [] [] text =
           hardSplit maxWidth indent [take ?n text] indent (drop ?n text)"
    using hardSplit_unfold[of maxWidth "[]" "text" indent "[]"] long ind
    by (simp add: max_def)
  from w long obtain lines2 cur2 rest where
    h: "hardSplit maxWidth indent [] [] text = Some (lines2, cur2, rest)"
    and ls: "ls = (if length (trim (cur2 @ rest @ [SP])) > 0
                   then lines2 @ [trimEnd (cur2 @ rest @ [SP])] else lines2)"
    by (auto simp: wrapText_def split_no_sep[OF nosp] wrapWord_def split: option.splits)
  from h u have "hardSplit maxWidth indent [take ?n text] indent (drop ?n text) =
                 Some (lines2, cur2, rest)" by simp
  from hardSplit_lengths[OF this] ind obtain ps where
    ps: "lines2 = [take ?n text] @ ps" "\<forall>p\<in>set ps. int (length p) = maxWidth"
    by auto
  show ?thesis
  proof (cases "length (trim (cur2 @ rest @ [SP])) > 0")
    case True
    with ls ps have "ls = take ?n text # ps @ [trimEnd (cur2 @ rest @ [SP])]" by simp
    with ps(2) show ?thesis by (intro exI[of _ ps] exI[of _ "[trimEnd (cur2 @ rest @ [SP])]"]) simp
  next
    case False
    with ls ps have "ls = take ?n text # ps @ []" by simp
    with ps(2) show ?thesis by (intro exI[of _ ps] exI[of _ "[]"]) simp
  qed
qed

lemma hardSplit_pieces:
  assumes "int (length indent) < maxWidth" "int (length cur) < maxWidth"
  shows "\<exists>ps cur' rest. hardSplit maxWidth indent lines cur word = Some (lines @ ps, cur', rest) \<and>
           (\<forall>p\<in>set ps. int (length p) = maxWidth) \<and> int (length (cur' @ rest)) \<le> maxWidth"
proof -
  from hardSplit_total[of indent maxWidth cur lines word] assms
  obtain lines' cur' rest where
    h: "hardSplit maxWidth indent lines cur word = Some (lines', cur', rest)"
    by (metis less_imp_le prod_cases3)
  from hardSplit_lengths[OF h] assms obtain ps where
    "lines' = lines @ ps" "\<forall>p\<in>set ps. int (length p) = maxWidth"
    "int (length (cur' @ rest)) \<le> maxWidth"
    by auto
  with h show ?thesis by blast
qed


lemmas wrap_eval = wrapText_def wrapWord_def hardSplit.simps lit_def SP_def trim_def trimEnd_def
  trimStart_def isWhiteSpace_def nonWs_def stripIndents_def



text \<open>
  C10: the call \<open>wrapText("abcdef", 3, "    ")\<close> does not return. After the first cut
  the current line is the indent, which alone is longer than \<open>maxWidth\<close>: the loop
  condition stays true when the word is used up, and the loop pushes the indent for ever.
\<close>

theorem wrapText_diverges: "wrapText (lit ''abcdef'') 3 (lit ''    '') = None"
  by (simp add: wrapText_def wrapWord_def hardSplit_diverges lit_def SP_def)

section \<open>Properties of the transport and of enqueueing\<close>

lemma bit_lt8_cases:
  assumes "n < 8" and "P 0" "P 1" "P 2" "P 3" and "P 4" "P 5" "P 6" "P 7"
  shows "P (n::nat)"
  using assms by (auto simp: less_Suc_eq eval_nat_numeral)

lemma and_60: "(b AND 0x60 = 0x60) \<longleftrightarrow> (bit b 5 \<and> bit b 6)" for b :: byte
proof
  assume eq: "b AND 0x60 = 0x60"
  have "bit (b AND 0x60) 5 = bit (0x60::byte) 5" "bit (b AND 0x60) 6 = bit (0x60::byte) 6"
    by (simp_all only: eq)
  then show "bit b 5 \<and> bit b 6" by (simp add: bit_and_iff)
next
  assume b: "bit b 5 \<and> bit b 6"
  show "b AND 0x60 = 0x60"
  proof (rule bit_word_eqI)
    fix n assume "n < LENGTH(8)"
    then have n: "n < 8" by simp
    show "bit (b AND 0x60) n = bit (0x60::byte) n"
      by (rule bit_lt8_cases[OF n]) (simp_all add: bit_and_iff b)
  qed
qed

lemma and_0C: "(b AND 0x0C = 0x0C) \<longleftrightarrow> (bit b 2 \<and> bit b 3)" for b :: byte
proof
  assume eq: "b AND 0x0C = 0x0C"
  have "bit (b AND 0x0C) 2 = bit (0x0C::byte) 2" "bit (b AND 0x0C) 3 = bit (0x0C::byte) 3"
    by (simp_all only: eq)
  then show "bit b 2 \<and> bit b 3" by (simp add: bit_and_iff)
next
  assume b: "bit b 2 \<and> bit b 3"
  show "b AND 0x0C = 0x0C"
  proof (rule bit_word_eqI)
    fix n assume "n < LENGTH(8)"
    then have n: "n < 8" by simp
    show "bit (b AND 0x0C) n = bit (0x0C::byte) n"
      by (rule bit_lt8_cases[OF n]) (simp_all add: bit_and_iff b)
  qed
qed

lemma SELECT_CP858_bytes: "SELECT_CP858 = [0x1B, 0x74, 0x13]"
  by (simp add: SELECT_CP858_def asciiBytes_def ESC_def lit_def)

lemma FEED_AND_CUT_bytes: "FEED_AND_CUT = [0x1B, 0x64, 0x06, 0x1B, 0x69]"
  by (simp add: FEED_AND_CUT_def asciiBytes_def ESC_def lit_def)

lemma push_buffers:
  "foldl (\<lambda>buffers item. (case item of Raw b \<Rightarrow> buffers @ [b] | Text s \<Rightarrow> buffers @ [cp858 s]))
         acc items =
   acc @ map (\<lambda>s. case s of Text t \<Rightarrow> cp858 t | Raw b \<Rightarrow> b) items"
  by (induction items arbitrary: acc) (auto split: segment.splits)

lemma encodePayload_Many:
  "encodePayload cp858 (Many segs) =
     [0x1B, 0x74, 0x13] @ concat (map (\<lambda>s. case s of Text t \<Rightarrow> cp858 t | Raw b \<Rightarrow> b) segs)
     @ [0x1B, 0x64, 0x06, 0x1B, 0x69]"
  by (simp add: encodePayload_def push_buffers SELECT_CP858_bytes FEED_AND_CUT_bytes)


text \<open>
  C6: for every list of segments the payload is the three bytes that select code page
  CP858, then the segments in their order (a text segment as the code-page encoder
  renders it, a binary segment as it is), then the five bytes of feed-and-cut; and for a
  valid address this is the byte string that \<open>sendToPrinter\<close> hands to the socket.
\<close>

theorem encodePayload_layout:
  "encodePayload cp858 (Many segs) =
     [0x1B, 0x74, 0x13] @ concat (map (\<lambda>s. case s of Text t \<Rightarrow> cp858 t | Raw b \<Rightarrow> b) segs)
     @ [0x1B, 0x64, 0x06, 0x1B, 0x69] \<and>
   (\<not> invalidAddress ip' port' \<longrightarrow>
      sendToPrinter cp858 nw w ip' port' (Many segs) =
        (case netWrite nw w (trim ip') port'
                ([0x1B, 0x74, 0x13]
                 @ concat (map (\<lambda>s. case s of Text t \<Rightarrow> cp858 t | Raw b \<Rightarrow> b) segs)
                 @ [0x1B, 0x64, 0x06, 0x1B, 0x69]) of
           (True, w') \<Rightarrow> (Inr (), w')
         | (False, w') \<Rightarrow> (Inl TransportError, w')))"
  by (simp add: encodePayload_Many sendToPrinter_def)

lemmas net_eval = scriptedNet_def invalidAddress_def sendToPrinter_def getPrinterStatus_def
  paperStatus_def trim_def trimEnd_def trimStart_def isWhiteSpace_def lit_def asciiBytes_def


text \<open>
  The theorem at a text, a binary and a text segment sent to 10.0.0.7:9100.
\<close>

theorem encodePayload_layout_witness:
  "\<not> invalidAddress (lit ''10.0.0.7'') (Finite 9100) \<and>
   sendToPrinter asciiBytes scriptedNet ([AWrite True], []) (lit ''10.0.0.7'') (Finite 9100)
     (Many [Text (lit ''A''), Raw [0xFF], Text (lit ''B'')]) =
   (Inr (), ([], [(lit ''10.0.0.7'', Finite 9100,
                   [0x1B, 0x74, 0x13, 0x41, 0xFF, 0x42, 0x1B, 0x64, 0x06, 0x1B, 0x69])]))"
proof -
  have v: "\<not> invalidAddress (lit ''10.0.0.7'') (Finite 9100)"
    by (simp add: net_eval)
  have t: "trim (lit ''10.0.0.7'') = lit ''10.0.0.7''"
    by (simp add: net_eval)
  from encodePayload_layout[of asciiBytes "[Text (lit ''A''), Raw [0xFF], Text (lit ''B'')]"
      "lit ''10.0.0.7''" "Finite 9100" scriptedNet "([AWrite True], [])"] v
  show ?thesis
    by (simp add: t) (simp add: scriptedNet_def asciiBytes_def lit_def)
qed


text \<open>
  C3: when the status query answers with a chunk whose first byte is \<open>b\<close>, the status
  is \<open>CARTA_FINITA\<close> if \<open>b AND 0x60 = 0x60\<close>, that is if bits 5 and 6 are both set,
  otherwise \<open>CARTA_QUASI_FINITA\<close> if \<open>b AND 0x0C = 0x0C\<close>, that is if bits 2 and 3 are
  both set, otherwise \<open>OK\<close>. The bytes 0x60, 0x0C and 0x00 give the three statuses.
\<close>

theorem getPrinterStatus_classifies:
  "(netQuery nw w ip' port' [0x10, 0x04, 0x04] = (QData (b # bs), w') \<longrightarrow>
      getPrinterStatus nw w ip' port' =
        (Inr (if b AND 0x60 = 0x60 then CARTA_FINITA
              else if b AND 0x0C = 0x0C then CARTA_QUASI_FINITA
              else OK), w')) \<and>
   paperStatus b =
     (if bit b 5 \<and> bit b 6 then CARTA_FINITA
      else if bit b 2 \<and> bit b 3 then CARTA_QUASI_FINITA
      else OK) \<and>
   paperStatus 0x60 = CARTA_FINITA \<and> paperStatus 0x0C = CARTA_QUASI_FINITA \<and>
   paperStatus 0x00 = OK"
  by (simp add: getPrinterStatus_def paperStatus_def and_60 and_0C)


text \<open>
  The theorem at the answer 0x6C, which has bits 2, 3, 5 and 6 set: paper out wins.
\<close>

theorem getPrinterStatus_classifies_witness:
  "netQuery scriptedNet ([AQuery (QData [0x6C, 0x00])], []) (lit ''10.0.0.7'') (Finite 9100)
     [0x10, 0x04, 0x04] =
     (QData [0x6C, 0x00], ([], [(lit ''10.0.0.7'', Finite 9100, [0x10, 0x04, 0x04])])) \<and>
   getPrinterStatus scriptedNet ([AQuery (QData [0x6C, 0x00])], []) (lit ''10.0.0.7'') (Finite 9100) =
     (Inr CARTA_FINITA, ([], [(lit ''10.0.0.7'', Finite 9100, [0x10, 0x04, 0x04])]))"
proof -
  have q: "netQuery scriptedNet ([AQuery (QData [0x6C, 0x00])], []) (lit ''10.0.0.7'') (Finite 9100)
     [0x10, 0x04, 0x04] =
     (QData (0x6C # [0x00]), ([], [(lit ''10.0.0.7'', Finite 9100, [0x10, 0x04, 0x04])]))"
    by (simp add: scriptedNet_def)
  from getPrinterStatus_classifies[of scriptedNet "([AQuery (QData [0x6C, 0x00])], [])"
      "lit ''10.0.0.7''" "Finite 9100" "0x6C" "[0x00]"
      "([], [(lit ''10.0.0.7'', Finite 9100, [0x10, 0x04, 0x04])])"] q
  show ?thesis by simp
qed

lemma invalidAddress_iff:
  "invalidAddress ip' port' \<longleftrightarrow> (trim ip' = [] \<or> \<not> (\<exists>q. port' = Finite q \<and> 0 < q))"
  by (cases port') (auto simp: invalidAddress_def)

lemma sendToPrinter_invalid:
  "invalidAddress ip' port' \<Longrightarrow> sendToPrinter cp858 nw w ip' port' data' = (Inl InvalidAddress, w)"
  by (simp add: sendToPrinter_def)

lemma sendToPrinter_valid:
  "\<not> invalidAddress ip' port' \<Longrightarrow>
   fst (sendToPrinter cp858 nw w ip' port' data') \<noteq> Inl InvalidAddress"
  by (auto simp: sendToPrinter_def Let_def split: prod.splits bool.splits)

lemma add_queue:
  "queue (add rnd36 now this pid ip' port' data') =
   queue this @ [jobOf (rnd36, now, pid, ip', port', data')]"
  by (simp add: add_def jobOf_def)

lemma safePrint_invalid:
  assumes "invalidAddress ip' port'"
  shows "queue (fst (safePrint cp858 nw rnd36 now w printQueue pid ip' port' data')) =
         queue printQueue @ [jobOf (rnd36, now, pid, ip', port', data')]"
proof (cases "getPrinterStatus nw w ip' port'")
  case (Pair st w1)
  show ?thesis
  proof (cases st)
    case (Inl e)
    with Pair show ?thesis by (simp add: safePrint_def add_queue)
  next
    case (Inr s)
    with Pair assms show ?thesis
      by (simp add: safePrint_def add_queue sendToPrinter_invalid)
  qed
qed







lemma addAll_queue: "queue (addAll this calls) = queue this @ map jobOf calls"
proof (induction calls arbitrary: this)
  case Nil
  then show ?case by simp
next
  case (Cons c calls)
  obtain rnd36 now pid ip' port' data' where c: "c = (rnd36, now, pid, ip', port', data')"
    by (cases c) auto
  show ?case unfolding c by (simp add: Cons.IH add_queue)
qed

lemma addAll_isProcessing: "isProcessing (addAll this calls) = isProcessing this"
proof (induction calls arbitrary: this)
  case Nil
  then show ?case by simp
next
  case (Cons c calls)
  obtain rnd36 now pid ip' port' data' where c: "c = (rnd36, now, pid, ip', port', data')"
    by (cases c) auto
  show ?case unfolding c by (simp add: Cons.IH add_def)
qed


text \<open>
  C9, as amended. A sequence of \<open>add\<close> calls appends one job per call, in call order,
  after the jobs that were queued before; the id of each job is what the environment's
  random text gives from position 7 on, the attempts are 0, and the queue grows by one
  per call. No order among the ids follows.
\<close>

theorem add_appends:
  "queue (addAll this calls) = queue this @ map jobOf calls \<and>
   map job_id (map jobOf calls) = map (\<lambda>c. drop 7 (fst c)) calls \<and>
   map attempts (map jobOf calls) = map (\<lambda>c. 0) calls \<and>
   length (queue (addAll this calls)) = length (queue this) + length calls \<and>
   isProcessing (addAll this calls) = isProcessing this"
  by (simp add: addAll_queue addAll_isProcessing jobOf_def split_def)


text \<open>
  C9 as stated fails: the ids are random texts; here the second id is smaller than the
  first in the order of JavaScript strings.
\<close>

theorem job_ids_not_increasing_counterexample:
  "map job_id (queue (addAll \<lparr>queue = [], isProcessing = False\<rparr>
      [(lit ''0.zzzzzzzzzzz'', 1, lit ''P1'', lit ''10.0.0.7'', Finite 9100, One (Text (lit ''a''))),
       (lit ''0.aaaaaaaaaaa'', 2, lit ''P1'', lit ''10.0.0.7'', Finite 9100, One (Text (lit ''b'')))])) =
     [lit ''zzzzzz'', lit ''aaaaaa''] \<and>
   \<not> lit ''zzzzzz'' < lit ''aaaaaa''"
  by (simp add: add_def lit_def)


section \<open>Properties of the sweep\<close>

lemma firstOcc_snoc:
  "firstOcc (xs @ [x]) = (if x \<in> set xs then firstOcc xs else firstOcc xs @ [x])"
  by (simp add: firstOcc_def)

lemma set_firstOcc [simp]: "set (firstOcc xs) = set xs"
  by (simp add: firstOcc_def)

lemma distinct_firstOcc [simp]: "distinct (firstOcc xs)"
  by (simp add: firstOcc_def)

lemma map_of_tabulate:
  "map_of (map (\<lambda>k. (k, f k)) ks) k = (if k \<in> set ks then Some (f k) else None)"
  by (induction ks) auto

lemma mapSet_tabulate:
  "distinct ks \<Longrightarrow>
   mapSet (map (\<lambda>k. (k, f k)) ks) k v =
     (if k \<in> set ks then map (\<lambda>k'. (k', if k' = k then v else f k')) ks
      else map (\<lambda>k. (k, f k)) ks @ [(k, v)])"
  by (induction ks) auto

lemma jobsOf_snoc:
  "jobsOf (q @ [j]) k = jobsOf q k @ (if printerId j = k then [j] else [])"
  by (simp add: jobsOf_def)

lemma jobsOf_absent: "k \<notin> printerId ` set q \<Longrightarrow> jobsOf q k = []"
  by (auto simp: jobsOf_def filter_empty_conv)

lemma groups_snoc:
  "map (\<lambda>k. (k, jobsOf (q @ [j]) k)) (firstOcc (map printerId (q @ [j]))) =
   groupStep (map (\<lambda>k. (k, jobsOf q k)) (firstOcc (map printerId q))) j"
proof (cases "printerId j \<in> printerId ` set q")
  case True
  then show ?thesis
    by (simp add: firstOcc_snoc groupStep_def map_of_tabulate mapSet_tabulate jobsOf_snoc)
next
  case False
  then show ?thesis
    by (auto simp: firstOcc_snoc groupStep_def map_of_tabulate mapSet_tabulate jobsOf_snoc
        jobsOf_absent)
qed

lemma groupJobs_groups:
  "groupJobs q = map (\<lambda>k. (k, jobsOf q k)) (firstOcc (map printerId q))"
proof (induction q rule: rev_induct)
  case Nil
  then show ?case by (simp add: groupJobs_def firstOcc_def)
next
  case (snoc j q)
  have "groupJobs (q @ [j]) = groupStep (groupJobs q) j" by (simp add: groupJobs_def)
  with snoc show ?case by (simp only: groups_snoc)
qed

lemma failedJobs_Cons:
  "failedJobs (j # js) (r # rs) = (if isl r then [j] else []) @ failedJobs js rs"
  by (simp add: failedJobs_def)

lemma sendJobs_sendEach:
  "sendJobs cp858 nw w remainingJobs jobs =
   (remainingJobs @ failedJobs jobs (fst (sendEach cp858 nw w jobs)),
    snd (sendEach cp858 nw w jobs))"
proof (induction jobs arbitrary: w remainingJobs)
  case Nil
  then show ?case by (simp add: failedJobs_def)
next
  case (Cons j js)
  obtain r w' where s: "sendToPrinter cp858 nw w (ip j) (port j) (data j) = (r, w')"
    by (cases "sendToPrinter cp858 nw w (ip j) (port j) (data j)")
  show ?case
    by (cases r) (simp_all add: s Cons.IH failedJobs_Cons split: prod.splits)
qed

lemma processGroup_kept:
  "processGroup cp858 nw w remainingJobs (k, jobs) =
   (remainingJobs @ fst (keptOfGroup cp858 nw w jobs), snd (keptOfGroup cp858 nw w jobs))"
proof (cases jobs)
  case Nil
  then show ?thesis by (simp add: processGroup_def keptOfGroup_def)
next
  case (Cons first rest)
  obtain st w1 where g: "getPrinterStatus nw w (ip first) (port first) = (st, w1)"
    by (cases "getPrinterStatus nw w (ip first) (port first)")
  show ?thesis
  proof (cases st)
    case (Inl e)
    with Cons g show ?thesis by (simp add: processGroup_def keptOfGroup_def)
  next
    case (Inr s)
    with Cons g show ?thesis
      by (cases s)
        (simp_all add: processGroup_def keptOfGroup_def sendJobs_sendEach split: prod.splits)
  qed
qed

lemma processGroups_sweepSpec:
  "processGroups cp858 nw w remainingJobs (map (\<lambda>k. (k, jobsOf q k)) ks) =
   (remainingJobs @ fst (sweepSpec cp858 nw w q ks), snd (sweepSpec cp858 nw w q ks))"
proof (induction ks arbitrary: w remainingJobs)
  case Nil
  then show ?case by simp
next
  case (Cons k ks)
  show ?case
    by (simp add: processGroup_kept Cons.IH split: prod.splits)
qed

lemma processQueue_idle:
  assumes "\<not> isProcessing this"
  shows "processQueue cp858 nw w this =
     (case sweepSpec cp858 nw w (queue this) (firstOcc (map printerId (queue this))) of
        (kept, w') \<Rightarrow> (this\<lparr>queue := kept\<rparr>, w'))"
proof (cases "queue this = []")
  case True
  then show ?thesis using assms by (simp add: processQueue_def firstOcc_def)
next
  case False
  then show ?thesis using assms
    by (simp add: processQueue_def Let_def groupJobs_groups processGroups_sweepSpec
        split: prod.splits)
qed

lemma failedJobs_mset: "mset (failedJobs jobs rs) \<subseteq># mset jobs"
proof (induction jobs arbitrary: rs)
  case Nil
  then show ?case by (simp add: failedJobs_def)
next
  case (Cons j js)
  show ?case
  proof (cases rs)
    case Nil
    then show ?thesis by (simp add: failedJobs_def)
  next
    case (Cons r rs')
    have "mset (failedJobs js rs') \<subseteq># mset js" by (rule Cons.IH)
    then show ?thesis unfolding Cons failedJobs_Cons
      by (auto intro: subset_mset.order_trans)
  qed
qed

lemma keptOfGroup_mset: "mset (fst (keptOfGroup cp858 nw w jobs)) \<subseteq># mset jobs"
proof (cases jobs)
  case Nil
  then show ?thesis by (simp add: keptOfGroup_def)
next
  case (Cons first rest)
  obtain st w1 where g: "getPrinterStatus nw w (ip first) (port first) = (st, w1)"
    by (cases "getPrinterStatus nw w (ip first) (port first)")
  obtain rs w2 where e: "sendEach cp858 nw w1 jobs = (rs, w2)"
    by (cases "sendEach cp858 nw w1 jobs")
  have "fst (keptOfGroup cp858 nw w jobs) = failedJobs jobs rs \<or>
        fst (keptOfGroup cp858 nw w jobs) = jobs"
    using Cons g e by (simp add: keptOfGroup_def del: sendEach.simps)
  then show ?thesis using failedJobs_mset[of jobs rs] by auto
qed

lemma sweepSpec_mset:
  "mset (fst (sweepSpec cp858 nw w q ks)) \<subseteq># mset (concat (map (jobsOf q) ks))"
proof (induction ks arbitrary: w)
  case Nil
  then show ?case by simp
next
  case (Cons k ks)
  obtain kept w1 where k: "keptOfGroup cp858 nw w (jobsOf q k) = (kept, w1)"
    by (cases "keptOfGroup cp858 nw w (jobsOf q k)")
  have a: "mset kept \<subseteq># mset (jobsOf q k)"
    using keptOfGroup_mset[of cp858 nw w "jobsOf q k"] k by simp
  have b: "mset (fst (sweepSpec cp858 nw w1 q ks)) \<subseteq># mset (concat (map (jobsOf q) ks))"
    by (rule Cons.IH)
  show ?case using a b by (simp add: k split: prod.splits) (metis fst_conv subset_mset.add_mono)
qed

lemma group_split:
  "k \<notin> set ks \<Longrightarrow>
   mset (jobsOf q k) + mset (filter (\<lambda>j. printerId j \<in> set ks) q) =
   mset (filter (\<lambda>j. printerId j \<in> set (k # ks)) q)"
  by (induction q) (auto simp: jobsOf_def)

lemma groups_partition:
  "distinct ks \<Longrightarrow> mset (concat (map (jobsOf q) ks)) = mset (filter (\<lambda>j. printerId j \<in> set ks) q)"
proof (induction ks)
  case Nil
  then show ?case by simp
next
  case (Cons k ks)
  have "mset (concat (map (jobsOf q) (k # ks))) =
        mset (jobsOf q k) + mset (concat (map (jobsOf q) ks))" by simp
  also have "\<dots> = mset (jobsOf q k) + mset (filter (\<lambda>j. printerId j \<in> set ks) q)"
    using Cons by simp
  also have "\<dots> = mset (filter (\<lambda>j. printerId j \<in> set (k # ks)) q)"
    using Cons.prems by (intro group_split) simp
  finally show ?case .
qed

lemma groups_all: "mset (concat (map (jobsOf q) (firstOcc (map printerId q)))) = mset q"
proof -
  have "filter (\<lambda>j. printerId j \<in> set (firstOcc (map printerId q))) q = q"
    by (simp add: filter_id_conv)
  then show ?thesis using groups_partition[of "firstOcc (map printerId q)" q] by simp
qed

lemma processQueue_mset: "mset (queue (fst (processQueue cp858 nw w this))) \<subseteq># mset (queue this)"
proof (cases "isProcessing this")
  case True
  then show ?thesis by (simp add: processQueue_def)
next
  case False
  have "mset (fst (sweepSpec cp858 nw w (queue this) (firstOcc (map printerId (queue this)))))
        \<subseteq># mset (queue this)"
    using sweepSpec_mset[of cp858 nw w "queue this" "firstOcc (map printerId (queue this))"]
    by (simp add: groups_all)
  then show ?thesis
    by (cases "sweepSpec cp858 nw w (queue this) (firstOcc (map printerId (queue this)))")
      (simp add: processQueue_idle[OF False])
qed



lemmas sweep_eval = firstOcc_def jobsOf_def keptOfGroup_def failedJobs_def exampleJob_def
  scriptedNet_def invalidAddress_def sendToPrinter_def getPrinterStatus_def paperStatus_def
  encodePayload_def trim_def trimEnd_def trimStart_def isWhiteSpace_def lit_def asciiBytes_def
  SELECT_CP858_def FEED_AND_CUT_def ESC_def




section \<open>Properties of the rasterizer\<close>

lemma widthBytesOf_div: "widthBytesOf pw = (pw + 7) div 8"
proof -
  have "\<lceil>(of_nat pw :: rat) / 8\<rceil> = \<lceil>(of_int (int pw) :: rat) / of_int 8\<rceil>" by simp
  also have "\<dots> = - (- int pw div 8)" by (rule ceiling_divide_eq_div)
  also have "\<dots> = int ((pw + 7) div 8)" by (simp add: zdiv_int)
  finally show ?thesis by (simp add: widthBytesOf_def)
qed

lemma setPixel_length [simp]: "length (setPixel cv wb y d x) = length d"
  by (simp add: setPixel_def Let_def)

lemma packRow_length [simp]: "length (packRow cv wb pw d y) = length d"
proof -
  have "length (foldl (setPixel cv wb y) d xs) = length d" for xs
    by (induction xs arbitrary: d) simp_all
  then show ?thesis by (simp add: packRow_def)
qed

lemma packRows_length: "length (foldl (packRow cv wb pw) d ys) = length d"
  by (induction ys arbitrary: d) simp_all

lemma packBitmap_length: "length (packBitmap cv wb pw) = wb * itemHeight cv"
  by (simp add: packBitmap_def packRows_length)

lemma bit_mask: "bit (2 ^ (7 - x mod 8) :: byte) k \<longleftrightarrow> k = 7 - x mod 8"
proof -
  have "7 - x mod 8 < 8" by arith
  then show ?thesis by (auto simp: bit_exp_iff possible_bit_word)
qed

lemma setPixel_bit:
  assumes "i < length d"
  shows "bit (setPixel cv wb y d x ! i) k \<longleftrightarrow>
         bit (d ! i) k \<or> (isBlack (pixelRA cv x y) \<and> i = y * wb + x div 8 \<and> k = 7 - x mod 8)"
proof (cases "isBlack (pixelRA cv x y)")
  case False
  then show ?thesis by (simp add: setPixel_def)
next
  case True
  show ?thesis
  proof (cases "i = y * wb + x div 8")
    case True
    with assms \<open>isBlack (pixelRA cv x y)\<close> show ?thesis
      by (simp add: setPixel_def Let_def bit_or_iff bit_mask)
  next
    case False
    with \<open>isBlack (pixelRA cv x y)\<close> show ?thesis
      by (simp add: setPixel_def Let_def)
  qed
qed

lemma packRow_bit_aux:
  assumes "i < length d"
  shows "bit (foldl (setPixel cv wb y) d [0..<n] ! i) k \<longleftrightarrow>
         bit (d ! i) k \<or>
         (\<exists>x<n. isBlack (pixelRA cv x y) \<and> i = y * wb + x div 8 \<and> k = 7 - x mod 8)"
proof (induction n)
  case 0
  then show ?case by simp
next
  case (Suc n)
  have len: "i < length (foldl (setPixel cv wb y) d [0..<n])"
    using assms packRow_length[of cv wb n d y] by (simp add: packRow_def)
  show ?case
    by (simp add: setPixel_bit[OF len] Suc.IH less_Suc_eq) blast
qed

lemma packRow_bit:
  assumes "i < length d"
  shows "bit (packRow cv wb pw d y ! i) k \<longleftrightarrow>
         bit (d ! i) k \<or>
         (\<exists>x<pw. isBlack (pixelRA cv x y) \<and> i = y * wb + x div 8 \<and> k = 7 - x mod 8)"
  using packRow_bit_aux[OF assms] by (simp add: packRow_def)

lemma packRows_bit:
  assumes "i < length d"
  shows "bit (foldl (packRow cv wb pw) d [0..<m] ! i) k \<longleftrightarrow>
         bit (d ! i) k \<or>
         (\<exists>y<m. \<exists>x<pw. isBlack (pixelRA cv x y) \<and> i = y * wb + x div 8 \<and> k = 7 - x mod 8)"
proof (induction m)
  case 0
  then show ?case by simp
next
  case (Suc m)
  have len: "i < length (foldl (packRow cv wb pw) d [0..<m])"
    using assms by (simp add: packRows_length)
  show ?case
    by (simp add: packRow_bit[OF len] Suc.IH less_Suc_eq) blast
qed

lemma cell_unique:
  fixes wb :: nat
  assumes "x < wb * 8" "x' < wb * 8" "y * wb + x div 8 = y' * wb + x' div 8"
    and "7 - x mod 8 = 7 - x' mod 8"
  shows "y = y' \<and> x = x'"
proof -
  have a: "x div 8 < wb" "x' div 8 < wb" using assms(1,2) by (simp_all add: less_mult_imp_div_less)
  have "(y * wb + x div 8) div wb = y" "(y' * wb + x' div 8) div wb = y'"
    using a by simp_all
  with assms(3) have y: "y = y'" by metis
  with assms(3) have d: "x div 8 = x' div 8" by simp
  have "x mod 8 < 8" "x' mod 8 < 8" by simp_all
  with assms(4) have m: "x mod 8 = x' mod 8" by arith
  from d m have "x = x'" by (metis div_mult_mod_eq)
  with y show ?thesis by simp
qed

lemma packBitmap_bit:
  assumes "y < itemHeight cv" "x < wb * 8"
  shows "bit (packBitmap cv wb (wb * 8) ! (y * wb + x div 8)) (7 - x mod 8) \<longleftrightarrow>
         isBlack (pixelRA cv x y)"
proof -
  have "x div 8 < wb" using assms(2) by (simp add: less_mult_imp_div_less)
  then have "y * wb + x div 8 < Suc y * wb" by simp
  also have "\<dots> \<le> itemHeight cv * wb" using assms(1) by (intro mult_le_mono1) simp
  finally have i: "y * wb + x div 8 < length (replicate (wb * itemHeight cv) (0::byte))"
    by (simp add: mult.commute)
  have "bit (packBitmap cv wb (wb * 8) ! (y * wb + x div 8)) (7 - x mod 8) \<longleftrightarrow>
        (\<exists>y'<itemHeight cv. \<exists>x'<wb * 8. isBlack (pixelRA cv x' y') \<and>
            y * wb + x div 8 = y' * wb + x' div 8 \<and> 7 - x mod 8 = 7 - x' mod 8)"
    unfolding packBitmap_def using packRows_bit[OF i] i by simp
  also have "\<dots> \<longleftrightarrow> isBlack (pixelRA cv x y)"
    using assms cell_unique[OF assms(2)] by blast
  finally show ?thesis .
qed

lemma rasterHeader_length [simp]: "length (rasterHeader wb h) = 8"
  by (simp add: rasterHeader_def Let_def)


text \<open>
  C7: when the image library fails the block is empty. Otherwise the block is the
  eight-byte header followed by a bitmap of exactly \<open>ceil(paperWidth / 8) * itemHeight\<close>
  bytes, and the pixel \<open>(x, y)\<close> of the canvas is black exactly when bit \<open>7 - x mod 8\<close> of
  byte \<open>y * widthBytes + x div 8\<close> is set: eight pixels to a byte, the leftmost in the
  highest bit, row after row.
\<close>

theorem raster_bitmap:
  "(lib filePath options (widthBytesOf (effectivePaperWidth options) * 8) = None \<longrightarrow>
      loadImageAsEscPos lib filePath options = []) \<and>
   (lib filePath options (widthBytesOf (effectivePaperWidth options) * 8) = Some cv \<longrightarrow>
      take 8 (loadImageAsEscPos lib filePath options) =
        rasterHeader (widthBytesOf (effectivePaperWidth options)) (itemHeight cv) \<and>
      length (drop 8 (loadImageAsEscPos lib filePath options)) =
        nat \<lceil>(of_nat (effectivePaperWidth options) :: rat) / 8\<rceil> * itemHeight cv \<and>
      (\<forall>y<itemHeight cv. \<forall>x<widthBytesOf (effectivePaperWidth options) * 8.
         bit (drop 8 (loadImageAsEscPos lib filePath options)
                ! (y * widthBytesOf (effectivePaperWidth options) + x div 8))
             (7 - x mod 8) \<longleftrightarrow>
         isBlack (pixelRA cv x y)))"
  by (simp add: loadImageAsEscPos_def Let_def packBitmap_length packBitmap_bit)
    (simp add: widthBytesOf_def)


text \<open>
  The theorem on a canvas of two rows, black on the diagonal, and a paper of ten dots.
\<close>

theorem raster_bitmap_witness:
  "diagonalLib (lit ''logo.png'') width10 (widthBytesOf (effectivePaperWidth width10) * 8) =
     Some \<lparr>itemHeight = 2, pixelRA = (\<lambda>x y. if x = y then (0, 255) else (255, 255))\<rparr> \<and>
   loadImageAsEscPos diagonalLib (lit ''logo.png'') width10 =
     [0x1d, 0x76, 0x30, 0x00, 2, 0, 2, 0, 0x80, 0x00, 0x40, 0x00] \<and>
   length (drop 8 (loadImageAsEscPos diagonalLib (lit ''logo.png'') width10)) =
     nat \<lceil>(of_nat (effectivePaperWidth width10) :: rat) / 8\<rceil> * 2 \<and>
   nat \<lceil>(of_nat (effectivePaperWidth width10) :: rat) / 8\<rceil> = 2"
proof -
  have l: "diagonalLib (lit ''logo.png'') width10 (widthBytesOf (effectivePaperWidth width10) * 8) =
     Some \<lparr>itemHeight = 2, pixelRA = (\<lambda>x y. if x = y then (0, 255) else (255, 255))\<rparr>"
    by (simp add: diagonalLib_def)
  have e: "loadImageAsEscPos diagonalLib (lit ''logo.png'') width10 =
     [0x1d, 0x76, 0x30, 0x00, 2, 0, 2, 0, 0x80, 0x00, 0x40, 0x00]"
    by code_simp
  have w: "nat \<lceil>(of_nat (effectivePaperWidth width10) :: rat) / 8\<rceil> = 2"
    using widthBytesOf_div[of "effectivePaperWidth width10"]
    by (simp add: widthBytesOf_def effectivePaperWidth_def width10_def)
  from raster_bitmap[of diagonalLib "lit ''logo.png''" width10
      "\<lparr>itemHeight = 2, pixelRA = (\<lambda>x y. if x = y then (0, 255) else (255, 255))\<rparr>"] l
  have "length (drop 8 (loadImageAsEscPos diagonalLib (lit ''logo.png'') width10)) =
     nat \<lceil>(of_nat (effectivePaperWidth width10) :: rat) / 8\<rceil> * 2"
    by simp
  with l e w show ?thesis by blast
qed


section \<open>Properties of the receipts\<close>

lemma length_itemIndent [simp]: "length (itemIndent p) = length p"
  by (simp add: itemIndent_def)

lemma length_lit [simp]: "length (lit s) = length s"
  by (simp add: lit_def)

lemma noteLines_total:
  assumes "trimStr n \<noteq> [] \<longrightarrow> int (length indent) + 6 \<le> RECEIPT_W"
  shows "\<exists>ls. noteLines indent n = Some ls"
proof (cases "trimStr n = []")
  case True
  then show ?thesis by (simp add: noteLines_def)
next
  case False
  with assms have "int (length (indent @ lit ''      '')) \<le> RECEIPT_W" by simp
  from wrapText_total[OF this] False show ?thesis by (simp add: noteLines_def Let_def)
qed

lemma kitchenItem_total:
  assumes "fitsKitchen l"
  shows "\<exists>rows. kitchenItem l = Some rows"
proof -
  let ?p = "showInt (qtyOf l) @ lit ''x ''"
  have a: "int (length (itemIndent ?p)) \<le> RECEIPT_W"
    using assms by (simp add: fitsKitchen_def)
  have b: "trimStr (notes' l) \<noteq> [] \<longrightarrow> int (length (itemIndent ?p)) + 6 \<le> RECEIPT_W"
    using assms by (auto simp: fitsKitchen_def)
  obtain wn where wn: "wrapText (?p @ orElse (trim (foodName l)) (lit ''FOOD'')) RECEIPT_W
                         (itemIndent ?p) = Some wn"
    using wrapText_total[OF a] by blast
  obtain nl where nl: "noteLines (itemIndent ?p) (notes' l) = Some nl"
    using noteLines_total[OF b] by blast
  show ?thesis using wn nl by (simp add: kitchenItem_def Let_def qtyOf_def)
qed

lemma kitchenItems_total:
  "\<forall>l\<in>set ls. fitsKitchen l \<Longrightarrow> \<exists>out'. kitchenItems out ls = Some out'"
proof (induction ls arbitrary: out)
  case Nil
  then show ?case by simp
next
  case (Cons l ls)
  then obtain rows where "kitchenItem l = Some rows" using kitchenItem_total[of l] by auto
  with Cons show ?case by simp
qed

lemma kitchenItems_prefix:
  "kitchenItems out ls = Some out' \<Longrightarrow> \<exists>rows. out' = out @ rows"
proof (induction ls arbitrary: out)
  case Nil
  then show ?case by simp
next
  case (Cons l ls)
  then obtain rows where r: "kitchenItem l = Some rows"
    and k: "kitchenItems (out @ rows) ls = Some out'"
    by (auto split: option.splits)
  from Cons.IH[OF k] show ?case by auto
qed

lemma kitchenHeader_shape:
  "\<exists>top rest. kitchenHeader h order progress =
     [top, cut (lit ''===== ORDINE CUCINA ====='') RECEIPT_W, line (lit ''=''),
      TXT_BIG @ cut (lit ''TAVOLO: '' @ orElse (trimStr (table order)) (lit ''-'')) RECEIPT_W
        @ TXT_NORMAL,
      TXT_BIG @ cut (lit ''CLIENTE: '' @ orElse (trimStr (customer order)) (lit ''-'')) RECEIPT_W
        @ TXT_NORMAL,
      TXT_BIG @ cut (lit ''PROGR: '' @ showInt progress) RECEIPT_W @ TXT_NORMAL] @ rest \<and>
     top = cut ((if trimStr (displayCode order) \<noteq> []
                 then lit ''COD: '' @ trimStr (displayCode order) @ lit '' - '' else [])
                @ lit ''PROGR: '' @ showInt progress) RECEIPT_W"
  by (simp add: kitchenHeader_def Let_def)

lemma kitchenOut_progr:
  assumes "kitchenOut h order lines progress = Some out"
  shows "out ! 5 = TXT_BIG @ cut (lit ''PROGR: '' @ showInt progress) RECEIPT_W @ TXT_NORMAL \<and>
         out ! 0 = cut ((if trimStr (displayCode order) \<noteq> []
                         then lit ''COD: '' @ trimStr (displayCode order) @ lit '' - '' else [])
                        @ lit ''PROGR: '' @ showInt progress) RECEIPT_W \<and>
         6 < length out"
proof -
  from assms obtain out1 where k: "kitchenItems (kitchenHeader h order progress) lines = Some out1"
    and o: "out = out1 @ [line (lit ''-'')]"
    by (auto simp: kitchenOut_def split: option.splits)
  from kitchenItems_prefix[OF k] obtain rows where
    r: "out1 = kitchenHeader h order progress @ rows" by blast
  from kitchenHeader_shape[of h order progress] obtain top rest where
    hd: "kitchenHeader h order progress =
     [top, cut (lit ''===== ORDINE CUCINA ====='') RECEIPT_W, line (lit ''=''),
      TXT_BIG @ cut (lit ''TAVOLO: '' @ orElse (trimStr (table order)) (lit ''-'')) RECEIPT_W
        @ TXT_NORMAL,
      TXT_BIG @ cut (lit ''CLIENTE: '' @ orElse (trimStr (customer order)) (lit ''-'')) RECEIPT_W
        @ TXT_NORMAL,
      TXT_BIG @ cut (lit ''PROGR: '' @ showInt progress) RECEIPT_W @ TXT_NORMAL] @ rest"
    and top: "top = cut ((if trimStr (displayCode order) \<noteq> []
                 then lit ''COD: '' @ trimStr (displayCode order) @ lit '' - '' else [])
                @ lit ''PROGR: '' @ showInt progress) RECEIPT_W"
    by blast
  show ?thesis unfolding o r hd top by simp
qed

lemma kitchenStep_counter:
  assumes "kitchenStep h order c (pid, lines) = Some (receipt, c')"
  shows "c' = c(pid \<mapsto> progressOf c pid + 1) \<and>
         (\<exists>out. kitchenOut h order lines (progressOf c pid) = Some out \<and> receipt = join [NL] out)"
  using assms
  by (auto simp: kitchenStep_def buildKitchenReceipt_def progressOf_def Let_def
      split: option.splits)

lemma progressOf_upd:
  "progressOf (c(pid \<mapsto> n)) p = (if p = pid then n else progressOf c p)"
  by (simp add: progressOf_def)

lemma kitchenLoop_counters:
  "kitchenLoop h order c entries = Some (receipts, c') \<Longrightarrow>
   length receipts = length entries \<and>
   (\<forall>p. progressOf c' p = progressOf c p + int (count_list (map fst entries) p))"
proof (induction entries arbitrary: c receipts)
  case Nil
  then show ?case by simp
next
  case (Cons e es)
  obtain pid lines where e: "e = (pid, lines)" by (cases e)
  from Cons.prems obtain receipt c1 rs where
    s: "kitchenStep h order c (pid, lines) = Some (receipt, c1)"
    and l: "kitchenLoop h order c1 es = Some (rs, c')"
    and r: "receipts = receipt # rs"
    by (auto simp: e split: option.splits prod.splits)
  from kitchenStep_counter[OF s] have c1: "c1 = c(pid \<mapsto> progressOf c pid + 1)" by simp
  from Cons.IH[OF l] have
    ih: "length rs = length es"
        "\<forall>p. progressOf c' p = progressOf c1 p + int (count_list (map fst es) p)"
    by simp_all
  show ?case using ih r by (auto simp: e c1 progressOf_upd)
qed

lemma kitchenStep_total:
  assumes "\<forall>l\<in>set lines. fitsKitchen l"
  shows "\<exists>r. kitchenStep h order c (pid, lines) = Some r"
proof -
  from kitchenItems_total[OF assms] obtain out where
    "kitchenItems (kitchenHeader h order (progressOf c pid)) lines = Some out" by blast
  then show ?thesis
    by (simp add: kitchenStep_def buildKitchenReceipt_def kitchenOut_def progressOf_def Let_def)
qed



lemmas receipt_eval = fitsKitchen_def fitsCash_def exampleLines_def exampleHost_def
  exampleOrder_def qtyOf_def unitBaseOf_def unitExtraOf_def toNumber_def showInt_def digit_def
  trimStr_def trim_def trimEnd_def trimStart_def isWhiteSpace_def lit_def RECEIPT_W_def
  eurCol_def fixed2_def padStart2_def cut_def



lemma unitBaseOf_field:
  "unitBaseOf h l = (case unitPrice l of None \<Rightarrow> 0 | Some p \<Rightarrow> p)"
  by (simp add: unitBaseOf_def toNumber_def split: option.splits)

lemma unitExtraOf_field:
  "unitExtraOf h l = (case surcharge l of None \<Rightarrow> 0 | Some p \<Rightarrow> p)"
  by (simp add: unitExtraOf_def toNumber_def split: option.splits)

lemma cashItem_rows:
  "cashItem h l = Some (rows, rowBase, rowExtra) \<Longrightarrow>
   rowBase = unitBaseOf h l * of_int (qtyOf l) \<and> rowExtra = unitExtraOf h l * of_int (qtyOf l)"
  by (auto simp: cashItem_def Let_def split: option.splits)

lemma cashItems_sums:
  "cashItems h (out, sub, sur) ls = Some (out', sub', sur') \<Longrightarrow>
   sub' = sub + (\<Sum>l\<leftarrow>ls. unitBaseOf h l * of_int (qtyOf l)) \<and>
   sur' = sur + (\<Sum>l\<leftarrow>ls. unitExtraOf h l * of_int (qtyOf l))"
proof (induction ls arbitrary: out sub sur)
  case Nil
  then show ?case by simp
next
  case (Cons l ls)
  from Cons.prems obtain rows rowBase rowExtra where
    i: "cashItem h l = Some (rows, rowBase, rowExtra)"
    and r: "cashItems h (out @ rows, sub + rowBase, sur + rowExtra) ls = Some (out', sub', sur')"
    by (auto split: option.splits)
  from Cons.IH[OF r] cashItem_rows[OF i] show ?case by simp
qed

lemma cashItem_total:
  assumes "fitsCash h l"
  shows "\<exists>r. cashItem h l = Some r"
proof -
  let ?p = "showInt (qtyOf l) @ lit ''x ''"
  let ?price = "eurCol h (unitBaseOf h l * of_int (qtyOf l) + unitExtraOf h l * of_int (qtyOf l))"
  have a: "int (length (itemIndent ?p)) \<le> RECEIPT_W - int (length ?price) - 1"
    using assms by (auto simp: fitsCash_def)
  have b: "trimStr (notes' l) \<noteq> [] \<longrightarrow> int (length (itemIndent ?p)) + 6 \<le> RECEIPT_W"
    using assms by (auto simp: fitsCash_def)
  obtain wn where wn: "wrapText (?p @ orElse (trim (foodName l)) (lit ''FOOD NAME NOT FOUND''))
                         (RECEIPT_W - int (length ?price) - 1) (itemIndent ?p) = Some wn"
    using wrapText_total[OF a] by blast
  obtain nl where nl: "noteLines (itemIndent ?p) (notes' l) = Some nl"
    using noteLines_total[OF b] by blast
  show ?thesis using wn nl by (simp add: cashItem_def Let_def)
qed

lemma cashItems_total:
  "\<forall>l\<in>set ls. fitsCash h l \<Longrightarrow> \<exists>r. cashItems h acc ls = Some r"
proof (induction ls arbitrary: acc)
  case Nil
  then show ?case by (cases acc) simp
next
  case (Cons l ls)
  obtain out sub sur where acc: "acc = (out, sub, sur)" by (cases acc)
  from Cons.prems obtain rows rowBase rowExtra where
    "cashItem h l = Some (rows, rowBase, rowExtra)"
    using cashItem_total[of h l] by (metis list.set_intros(1) prod_cases3)
  with Cons show ?case by (simp add: acc)
qed

lemma cashTotals_tail:
  "\<exists>pre. cashTotals h order sub sur =
     pre @ [line (lit ''=''),
            lr (lit ''TOTALE'') (eurCol h (max 0 (sub + sur - toNumber h (discount order)))),
            line (lit ''='')]"
  by (simp add: cashTotals_def totalAfterDiscount_def Let_def)

lemma cashOut_total_line:
  assumes "cashOut h order lines = Some out"
  shows "\<exists>pre. out = pre @
     [line (lit ''=''),
      lr (lit ''TOTALE'')
         (eurCol h (max 0 ((\<Sum>l\<leftarrow>lines. unitBaseOf h l * of_int (qtyOf l))
                          + (\<Sum>l\<leftarrow>lines. unitExtraOf h l * of_int (qtyOf l))
                          - toNumber h (discount order)))),
      line (lit ''='')]"
proof -
  from assms obtain out1 sub sur where
    c: "cashItems h (cashHeader h order, 0, 0) lines = Some (out1, sub, sur)"
    and o: "out = out1 @ [line (lit ''-'')] @ cashTotals h order sub sur"
    by (auto simp: cashOut_def split: option.splits)
  from cashItems_sums[OF c] have
    s: "sub = (\<Sum>l\<leftarrow>lines. unitBaseOf h l * of_int (qtyOf l))"
       "sur = (\<Sum>l\<leftarrow>lines. unitExtraOf h l * of_int (qtyOf l))"
    by simp_all
  from cashTotals_tail[of h order sub sur] obtain pre where
    "cashTotals h order sub sur =
     pre @ [line (lit ''=''),
            lr (lit ''TOTALE'') (eurCol h (max 0 (sub + sur - toNumber h (discount order)))),
            line (lit ''='')]"
    by blast
  then have "out = (out1 @ [line (lit ''-'')] @ pre) @
       [line (lit ''=''),
        lr (lit ''TOTALE'') (eurCol h (max 0 (sub + sur - toNumber h (discount order)))),
        line (lit ''='')]"
    using o by simp
  then show ?thesis unfolding s by blast
qed

lemma buildCashReceipt_text:
  assumes "buildCashReceipt h existsSync lib order lines singleTickets = Some parts"
  shows "\<exists>out. cashOut h order lines = Some out \<and>
               Text ([NL, NL, NL] @ join [NL] out @ [NL, NL]) \<in> set parts"
  using assms by (auto simp: buildCashReceipt_def Let_def split: option.splits)

lemma buildCashReceipt_total:
  assumes "\<forall>l\<in>set lines. fitsCash h l"
  shows "\<exists>parts. buildCashReceipt h existsSync lib order lines singleTickets = Some parts"
proof -
  from cashItems_total[OF assms, of "(cashHeader h order, 0, 0)"] obtain r where
    "cashItems h (cashHeader h order, 0, 0) lines = Some r" by blast
  then show ?thesis
    by (cases r) (simp add: buildCashReceipt_def cashOut_def Let_def)
qed



lemma example_price15: "eurCol exampleHost 15 = lit ''15,00'' @ [EURO]"
  by code_simp




end
